theory Spec2Isabelle
  imports Main
begin

section \<open>Values, errors and participants\<close>

text \<open>
  The module \<^verbatim>\<open>lsmr_proc.py\<close> coordinates a main process and a list of worker
  processes. Every participant holds a dictionary \<^verbatim>\<open>_process_data\<close>; the main
  process talks to a worker through a pipe, and the worker runs \<^verbatim>\<open>_message_loop\<close>.

  Python values that travel through the pipes are modelled by \<open>val\<close>; \<open>ArrayV\<close> is
  a one-dimensional numpy array of integers. Dictionaries with string keys (requests,
  stores, the caller's argument dictionaries) are maps. Exceptions are values of
  \<open>error\<close>: \<open>InvalidArgument\<close> is the \<^verbatim>\<open>Exception\<close> raised by the reserved-key
  check of \<^verbatim>\<open>run_function\<close>, \<open>OpRaised\<close> is any exception raised by an operation
  found in \<^verbatim>\<open>globals()\<close>, and \<open>NoReply\<close> stands for a \<^verbatim>\<open>recv\<close> on a pipe that
  never delivers a message. \<open>Unmodelled\<close> is not an exception: it marks the results of
  numpy operations that the model does not describe (arithmetic between a list and an
  array, conversion of nested or mixed lists to arrays), and no property below is stated
  about it.
\<close>

datatype val = NoneV | IntV int | StrV string | ListV "val list" | ArrayV "int list"

datatype error =
    IndexError
  | KeyError val
  | TypeError
  | ValueError
  | ZeroDivisionError
  | OverflowError
  | Unmodelled
  | InvalidArgument
  | OpRaised string
  | NoReply

type_synonym dict = "string \<rightharpoonup> val"
type_synonym operation = "dict \<Rightarrow> dict \<Rightarrow> string + dict"
type_synonym registry = "string \<rightharpoonup> operation"

datatype status = Listening | Stopped | Crashed error

record worker =
  w_store :: dict
  w_status :: status
  w_replies :: "val list"

record pool =
  cpu_count :: int
  pipes :: "worker list"
  process_data :: dict

section \<open>The worker: one iteration of the message loop, and the loop\<close>

text \<open>
  A worker is its store, the state of its loop and the replies it has written to its end
  of the pipe and that the main process has not read yet. An operation looked up in
  \<^verbatim>\<open>globals()\<close> takes the request and the store of the participant that runs it, and
  either raises or returns the new store; the registry of operations is a parameter of
  the model.

  \<open>handle_request\<close> is the body of the \<^verbatim>\<open>while True\<close> loop after \<^verbatim>\<open>conn.recv()\<close>.
  A missing dictionary key raises \<^verbatim>\<open>KeyError\<close>, an unhashable key raises
  \<^verbatim>\<open>TypeError\<close>; an uncaught exception ends the process (\<open>Crashed\<close>).
  When the discriminant is a numpy array, \<^verbatim>\<open>op == "shutdown"\<close> compares element by
  element and the \<^verbatim>\<open>if\<close> asks for the truth value of the array of results: numpy
  raises \<^verbatim>\<open>ValueError\<close> unless the array has exactly one element; with one element
  (an integer, never equal to a string) every test is false and the request falls through
  to the last branch. \<open>truth_raises\<close> is that test.

  \<open>message_loop\<close> runs the loop on the sequence of requests that arrive on the pipe.
  When the sequence is used up the worker is blocked in \<^verbatim>\<open>recv\<close>, still
  \<open>Listening\<close>. Since pipes are FIFO and a store is private to its participant, what
  the main process can observe does not depend on when a worker handles a request, so
  \<open>pipe_send\<close> lets the receiving worker handle the request at once. A request sent
  to a worker that has stopped or crashed is never handled, and \<open>pipe_recv\<close> on a pipe
  with nothing to read and nothing to come is the error \<open>NoReply\<close>.
\<close>

definition crash :: "error \<Rightarrow> worker \<Rightarrow> worker" where
  "crash e w = w\<lparr>w_status := Crashed e\<rparr>"

definition set_data :: "dict \<Rightarrow> dict \<Rightarrow> dict" where
  "set_data request st =
     (\<lambda>key. if key \<noteq> ''op'' then (case request key of Some v \<Rightarrow> Some v | None \<Rightarrow> st key)
            else st key)"

definition get_var :: "dict \<Rightarrow> worker \<Rightarrow> worker" where
  "get_var request w =
     (case request ''var_name'' of
        None \<Rightarrow> crash (KeyError (StrV ''var_name'')) w
      | Some (StrV var_name) \<Rightarrow>
          (case w_store w var_name of
             None \<Rightarrow> crash (KeyError (StrV var_name)) w
           | Some v \<Rightarrow> w\<lparr>w_replies := w_replies w @ [v]\<rparr>)
      | Some (ListV xs) \<Rightarrow> crash TypeError w
      | Some (ArrayV xs) \<Rightarrow> crash TypeError w
      | Some v \<Rightarrow> crash (KeyError v) w)"

definition run_op :: "registry \<Rightarrow> dict \<Rightarrow> worker \<Rightarrow> worker" where
  "run_op reg request w =
     (case request ''op_name'' of
        None \<Rightarrow> crash (KeyError (StrV ''op_name'')) w
      | Some (StrV op_name) \<Rightarrow>
          (case reg op_name of
             Some f \<Rightarrow>
               (case f request (w_store w) of
                  Inl msg \<Rightarrow> crash (OpRaised msg) w
                | Inr st \<Rightarrow> w\<lparr>w_store := st\<rparr>)
           | None \<Rightarrow> w)
      | Some (ListV xs) \<Rightarrow> crash TypeError w
      | Some (ArrayV xs) \<Rightarrow> crash TypeError w
      | Some v \<Rightarrow> w)"

definition truth_raises :: "val \<Rightarrow> bool" where
  "truth_raises op = (case op of ArrayV xs \<Rightarrow> length xs \<noteq> 1 | _ \<Rightarrow> False)"

definition handle_request :: "registry \<Rightarrow> dict \<Rightarrow> worker \<Rightarrow> worker" where
  "handle_request reg request w =
     (case request ''op'' of
        None \<Rightarrow> crash (KeyError (StrV ''op'')) w
      | Some op \<Rightarrow>
          if truth_raises op then crash ValueError w
          else if op = StrV ''shutdown'' then w\<lparr>w_status := Stopped\<rparr>
          else if op = StrV ''set_data'' then w\<lparr>w_store := set_data request (w_store w)\<rparr>
          else if op = StrV ''get_var'' then get_var request w
          else if op = StrV ''clear_all_data'' then w\<lparr>w_store := Map.empty\<rparr>
          else if op = StrV ''run_function'' then run_op reg request w
          else w)"

fun message_loop :: "registry \<Rightarrow> dict list \<Rightarrow> worker \<Rightarrow> worker" where
  "message_loop reg [] w = w"
| "message_loop reg (request # rest) w =
     (if w_status w = Listening then message_loop reg rest (handle_request reg request w)
      else w)"

definition pipe_send :: "registry \<Rightarrow> dict \<Rightarrow> worker \<Rightarrow> worker" where
  "pipe_send reg request w = message_loop reg [request] w"

definition pipe_recv :: "worker \<Rightarrow> error + val \<times> worker" where
  "pipe_recv w =
     (case w_replies w of
        [] \<Rightarrow> Inl NoReply
      | v # vs \<Rightarrow> Inr (v, w\<lparr>w_replies := vs\<rparr>))"

definition new_worker :: worker where
  "new_worker = \<lparr>w_store = Map.empty, w_status = Listening, w_replies = []\<rparr>"

section \<open>The partitioner\<close>

text \<open>
  \<^verbatim>\<open>_split(start, length, num_splits)\<close>. In the standard case the source computes
  \<^verbatim>\<open>int(length * i / num_splits)\<close>: the true division of two Python integers is
  the quotient rounded to the nearest double (53 bits of precision, ties to even),
  \<^verbatim>\<open>OverflowError\<close> when the rounded quotient reaches two to the power 1024 and
  \<^verbatim>\<open>ZeroDivisionError\<close> on a zero divisor; \<^verbatim>\<open>int\<close> then drops the fraction.

  \<open>bit_length a\<close> is the number of binary digits of a positive integer.
  \<open>float_exponent a b\<close> is the integer \<open>e\<close> with \<open>2\<^sup>e \<le> a / b < 2\<^sup>e\<^sup>+\<^sup>1\<close> for positive
  \<open>a\<close> and \<open>b\<close>. \<open>truediv_to_int a b\<close> scales the quotient by \<open>2\<^sup>s\<close>, \<open>s = 52 - e\<close>, so
  that it has 53 binary digits before the point, rounds it to the integer \<open>m\<close>, and
  returns the integer part of \<open>m / 2\<^sup>s\<close>. Where the double would be subnormal the
  quotient is below one half, and the integer part is zero however it is rounded.
  \<open>int_truediv\<close> adds the zero divisor and the signs. \<open>split_indices_loop\<close> is the
  first loop of the standard case, which stops at the first exception.
  \<^verbatim>\<open>indices[-1]\<close> on an empty list raises \<^verbatim>\<open>IndexError\<close>.

  \<open>floor_indices\<close> is the list of exact breakpoints
  \<open>start + \<lfloor>len * i / num_splits\<rfloor>\<close>, against which the loop is compared.
\<close>

function bit_length :: "int \<Rightarrow> nat" where
  "bit_length a = (if a \<le> 0 then 0 else Suc (bit_length (a div 2)))"
  by pat_completeness auto
termination
  by (relation "measure nat") auto

declare bit_length.simps [simp del]

definition round_half_even :: "int \<Rightarrow> int \<Rightarrow> int" where
  "round_half_even n d =
     (let q = n div d; r = n mod d
      in if 2 * r < d then q
         else if 2 * r > d then q + 1
         else if even q then q else q + 1)"

definition float_exponent :: "int \<Rightarrow> int \<Rightarrow> int" where
  "float_exponent a b =
     (let d = int (bit_length a) - int (bit_length b)
      in if b * 2 ^ nat d \<le> a * 2 ^ nat (- d) then d else d - 1)"

definition truediv_to_int :: "int \<Rightarrow> int \<Rightarrow> error + int" where
  "truediv_to_int a b =
     (if a = 0 then Inr 0
      else
        (let s = 52 - float_exponent a b;
             m = round_half_even (a * 2 ^ nat s) (b * 2 ^ nat (- s))
         in if 2 ^ 1024 \<le> m * 2 ^ nat (- s) then Inl OverflowError
            else Inr ((m * 2 ^ nat (- s)) div 2 ^ nat s)))"

definition int_truediv :: "int \<Rightarrow> int \<Rightarrow> error + int" where
  "int_truediv a b =
     (if b = 0 then Inl ZeroDivisionError
      else case truediv_to_int \<bar>a\<bar> \<bar>b\<bar> of
             Inl e \<Rightarrow> Inl e
           | Inr q \<Rightarrow> Inr (if (a < 0) = (b < 0) then q else - q))"

fun split_indices_loop :: "int \<Rightarrow> int \<Rightarrow> int \<Rightarrow> nat list \<Rightarrow> error + int list" where
  "split_indices_loop start len num_splits [] = Inr []"
| "split_indices_loop start len num_splits (i # rest) =
     (case int_truediv (len * int i) num_splits of
        Inl e \<Rightarrow> Inl e
      | Inr q \<Rightarrow>
          (case split_indices_loop start len num_splits rest of
             Inl e \<Rightarrow> Inl e
           | Inr indices \<Rightarrow> Inr ((start + q) # indices)))"

definition split_indices :: "int \<Rightarrow> int \<Rightarrow> int \<Rightarrow> error + int list" where
  "split_indices start len num_splits =
     split_indices_loop start len num_splits [0..<nat num_splits]"

definition floor_indices :: "int \<Rightarrow> int \<Rightarrow> int \<Rightarrow> int list" where
  "floor_indices start len num_splits =
     map (\<lambda>i. start + (len * int i) div num_splits) [0..<nat num_splits]"

definition split_standard :: "int \<Rightarrow> int \<Rightarrow> int list \<Rightarrow> error + (int \<times> int) list" where
  "split_standard start len indices =
     (let result = map (\<lambda>i. (indices ! i, indices ! (i + 1) - indices ! i))
                       [0..<length indices - 1]
      in if indices = [] then Inl IndexError
         else Inr (result @ [(last indices, start + len - last indices)]))"

fun split_special :: "int \<Rightarrow> int \<Rightarrow> nat \<Rightarrow> int \<Rightarrow> (int \<times> int) list" where
  "split_special start len 0 index = []"
| "split_special start len (Suc k) index =
     (if index < start + len
      then (index, 1) # split_special start len k (index + 1)
      else (index, 0) # split_special start len k index)"

definition py_split :: "int \<Rightarrow> int \<Rightarrow> int \<Rightarrow> error + (int \<times> int) list" where
  "py_split start len num_splits =
     (if len \<ge> num_splits
      then (case split_indices start len num_splits of
              Inl e \<Rightarrow> Inl e
            | Inr indices \<Rightarrow> split_standard start len indices)
      else Inr (split_special start len (nat num_splits) start))"

text \<open>
  \<open>tiles lo ps hi\<close>: the ranges \<open>[offset, offset + length)\<close> of the pairs \<open>ps\<close>, taken in
  order, cover \<open>[lo, hi)\<close> with no gap and no overlap: each range starts where the one
  before ends, and no length is negative. \<open>diffs\<close> is the list of pairs that the standard
  case builds from its breakpoints, written by recursion on the breakpoints.
\<close>

fun tiles :: "int \<Rightarrow> (int \<times> int) list \<Rightarrow> int \<Rightarrow> bool" where
  "tiles lo [] hi = (lo = hi)"
| "tiles lo ((off, n) # ps) hi = (off = lo \<and> 0 \<le> n \<and> tiles (lo + n) ps hi)"

fun diffs :: "int list \<Rightarrow> int \<Rightarrow> (int \<times> int) list" where
  "diffs [] hi = []"
| "diffs [x] hi = [(x, hi - x)]"
| "diffs (x # y # ys) hi = (x, y - x) # diffs (y # ys) hi"

section \<open>The coordinator\<close>

text \<open>
  The main process: \<^verbatim>\<open>_cpu_count\<close>, the workers behind \<^verbatim>\<open>_pipes\<close> (in pool
  order) and its own \<^verbatim>\<open>_process_data\<close>. Functions that change the caller's
  dictionary in place return that dictionary as it is after the call. A function that can
  raise returns the error together with the state it leaves behind.
\<close>

text \<open>
  \<open>py_slice xs i j\<close> is \<^verbatim>\<open>xs[i:j]\<close> and \<open>py_slice_from xs i\<close> is \<^verbatim>\<open>xs[i:]\<close>:
  a negative index counts from the end, and an index beyond either end is clamped.
  \<open>send_slices\<close> is the loop of \<^verbatim>\<open>split_list_and_send\<close> over the pipes, by index;
  \<open>recv_extend\<close> and \<open>recv_concatenate\<close> are the receiving loops of the two
  aggregation functions. \<^verbatim>\<open>var_list += v\<close> extends a list by the elements of a
  list or a string and raises \<^verbatim>\<open>TypeError\<close> on \<^verbatim>\<open>None\<close> or a number; with a
  numpy array on the right numpy takes the operation over and adds element by element,
  which is left unmodelled. \<^verbatim>\<open>numpy.concatenate\<close> appends
  one-dimensional arrays (a list of integers counts as one) and raises
  \<^verbatim>\<open>ValueError\<close> when an operand has no dimension, as \<^verbatim>\<open>None\<close>, a number or a
  string; lists that are nested or hold other values than integers are left unmodelled.
\<close>

definition send_same_data :: "registry \<Rightarrow> dict \<Rightarrow> pool \<Rightarrow> dict \<times> pool" where
  "send_same_data reg data_dict p =
     (let local = process_data p ++ data_dict;
          request = data_dict(''op'' \<mapsto> StrV ''set_data'')
      in (request, p\<lparr>pipes := map (pipe_send reg request) (pipes p),
                     process_data := local\<rparr>))"

definition clear_all_data :: "registry \<Rightarrow> pool \<Rightarrow> pool" where
  "clear_all_data reg p =
     p\<lparr>pipes := map (pipe_send reg [''op'' \<mapsto> StrV ''clear_all_data'']) (pipes p),
       process_data := Map.empty\<rparr>"

definition slice_index :: "nat \<Rightarrow> int \<Rightarrow> nat" where
  "slice_index n i = (if i < 0 then nat (int n + i) else min (nat i) n)"

definition py_slice :: "'a list \<Rightarrow> int \<Rightarrow> int \<Rightarrow> 'a list" where
  "py_slice xs i j =
     (let a = slice_index (length xs) i; b = slice_index (length xs) j
      in take (b - a) (drop a xs))"

definition py_slice_from :: "'a list \<Rightarrow> int \<Rightarrow> 'a list" where
  "py_slice_from xs i = drop (slice_index (length xs) i) xs"

fun send_slices ::
  "registry \<Rightarrow> val list \<Rightarrow> string \<Rightarrow> (int \<times> int) list \<Rightarrow> nat \<Rightarrow> worker list
    \<Rightarrow> error option \<times> worker list" where
  "send_slices reg data_list var_name ial i [] = (None, [])"
| "send_slices reg data_list var_name ial i (w # ws) =
     (if i < length ial then
        (let (index, len) = ial ! i;
             w' = (if len > 0
                   then pipe_send reg [''op'' \<mapsto> StrV ''set_data'',
                                       var_name \<mapsto> ListV (py_slice data_list index (index + len))] w
                   else w);
             (e, ws') = send_slices reg data_list var_name ial (i + 1) ws
         in (e, w' # ws'))
      else (Some IndexError, w # ws))"

definition split_list_and_send ::
  "registry \<Rightarrow> val list \<Rightarrow> string \<Rightarrow> pool \<Rightarrow> error option \<times> pool" where
  "split_list_and_send reg data_list var_name p =
     (case py_split 0 (int (length data_list)) (cpu_count p) of
        Inl e \<Rightarrow> (Some e, p)
      | Inr indices_and_lengths \<Rightarrow>
          (case send_slices reg data_list var_name indices_and_lengths 0 (pipes p) of
             (Some e, ws) \<Rightarrow> (Some e, p\<lparr>pipes := ws\<rparr>)
           | (None, ws) \<Rightarrow>
               if indices_and_lengths = [] then (Some IndexError, p\<lparr>pipes := ws\<rparr>)
               else (None, p\<lparr>pipes := ws,
                              process_data := (process_data p)
                                (var_name \<mapsto> ListV (py_slice_from data_list
                                                     (fst (last indices_and_lengths))))\<rparr>)))"

definition run_function ::
  "registry \<Rightarrow> string \<Rightarrow> dict option \<Rightarrow> pool \<Rightarrow> error option \<times> dict option \<times> pool" where
  "run_function reg function_name arg p =
     (let arg_dict = (case arg of None \<Rightarrow> Map.empty | Some d \<Rightarrow> d)
      in if arg_dict ''op'' \<noteq> None \<or> arg_dict ''op_name'' \<noteq> None
         then (Some InvalidArgument, arg, p)
         else
           (let request = arg_dict(''op'' \<mapsto> StrV ''run_function'',
                                   ''op_name'' \<mapsto> StrV function_name);
                arg' = map_option (\<lambda>d. request) arg;
                p' = p\<lparr>pipes := map (pipe_send reg request) (pipes p)\<rparr>
            in case reg function_name of
                 None \<Rightarrow> (Some (KeyError (StrV function_name)), arg', p')
               | Some f \<Rightarrow>
                   (case f request (process_data p') of
                      Inl msg \<Rightarrow> (Some (OpRaised msg), arg', p')
                    | Inr st \<Rightarrow> (None, arg', p'\<lparr>process_data := st\<rparr>))))"

definition get_var_request :: "string \<Rightarrow> dict" where
  "get_var_request var_name = [''op'' \<mapsto> StrV ''get_var'', ''var_name'' \<mapsto> StrV var_name]"

definition list_extend :: "val list \<Rightarrow> val \<Rightarrow> error + val list" where
  "list_extend var_list v =
     (case v of
        ListV xs \<Rightarrow> Inr (var_list @ xs)
      | ArrayV xs \<Rightarrow> Inl Unmodelled
      | StrV s \<Rightarrow> Inr (var_list @ map (\<lambda>c. StrV [c]) s)
      | _ \<Rightarrow> Inl TypeError)"

fun recv_extend :: "val list \<Rightarrow> worker list \<Rightarrow> (error + val list) \<times> worker list" where
  "recv_extend var_list [] = (Inr var_list, [])"
| "recv_extend var_list (w # ws) =
     (case pipe_recv w of
        Inl e \<Rightarrow> (Inl e, w # ws)
      | Inr (v, w') \<Rightarrow>
          (case list_extend var_list v of
             Inl e \<Rightarrow> (Inl e, w' # ws)
           | Inr var_list' \<Rightarrow>
               (let (r, ws') = recv_extend var_list' ws in (r, w' # ws'))))"

definition concat_var_into_list ::
  "registry \<Rightarrow> string \<Rightarrow> pool \<Rightarrow> (error + val list) \<times> pool" where
  "concat_var_into_list reg var_name p =
     (let (r, ws) = recv_extend []
                      (map (pipe_send reg (get_var_request var_name)) (pipes p));
          p' = p\<lparr>pipes := ws\<rparr>
      in case r of
           Inl e \<Rightarrow> (Inl e, p')
         | Inr var_list \<Rightarrow>
             (case process_data p var_name of
                None \<Rightarrow> (Inl (KeyError (StrV var_name)), p')
              | Some v \<Rightarrow> (list_extend var_list v, p')))"

fun flat_ints :: "val list \<Rightarrow> int list option" where
  "flat_ints [] = Some []"
| "flat_ints (IntV n # xs) = map_option ((#) n) (flat_ints xs)"
| "flat_ints (x # xs) = None"

definition np_elements :: "val \<Rightarrow> error + int list" where
  "np_elements v =
     (case v of
        ArrayV xs \<Rightarrow> Inr xs
      | ListV xs \<Rightarrow> (case flat_ints xs of Some ns \<Rightarrow> Inr ns | None \<Rightarrow> Inl Unmodelled)
      | _ \<Rightarrow> Inl ValueError)"

definition np_concatenate :: "val \<Rightarrow> val \<Rightarrow> error + val" where
  "np_concatenate a b =
     (if np_elements a = Inl ValueError \<or> np_elements b = Inl ValueError then Inl ValueError
      else case (np_elements a, np_elements b) of
             (Inr xs, Inr ys) \<Rightarrow> Inr (ArrayV (xs @ ys))
           | _ \<Rightarrow> Inl Unmodelled)"

fun recv_concatenate :: "val \<Rightarrow> worker list \<Rightarrow> (error + val) \<times> worker list" where
  "recv_concatenate var_array [] = (Inr var_array, [])"
| "recv_concatenate var_array (w # ws) =
     (case pipe_recv w of
        Inl e \<Rightarrow> (Inl e, w # ws)
      | Inr (v, w') \<Rightarrow>
          if var_array = NoneV
          then (let (r, ws') = recv_concatenate v ws in (r, w' # ws'))
          else (case np_concatenate var_array v of
                  Inl e \<Rightarrow> (Inl e, w' # ws)
                | Inr var_array' \<Rightarrow>
                    (let (r, ws') = recv_concatenate var_array' ws in (r, w' # ws'))))"

definition concat_var_into_numpy_array ::
  "registry \<Rightarrow> string \<Rightarrow> pool \<Rightarrow> (error + val) \<times> pool" where
  "concat_var_into_numpy_array reg var_name p =
     (let (r, ws) = recv_concatenate NoneV
                      (map (pipe_send reg (get_var_request var_name)) (pipes p));
          p' = p\<lparr>pipes := ws\<rparr>
      in case r of
           Inl e \<Rightarrow> (Inl e, p')
         | Inr var_array \<Rightarrow>
             (case process_data p var_name of
                None \<Rightarrow> (Inl (KeyError (StrV var_name)), p')
              | Some v \<Rightarrow> (np_concatenate var_array v, p')))"

section \<open>Reference states and request classes\<close>

text \<open>
  \<open>fresh_pool k\<close> is the pool right after \<^verbatim>\<open>start_processes\<close> on a machine with
  \<open>k + 1\<close> processors: \<open>k\<close> workers that listen, with empty stores and nothing to read
  on their pipes. \<open>single_pool\<close> is a machine with one processor, hence no worker, whose
  main store holds the list \<^verbatim>\<open>[1, 2]\<close> under \<^verbatim>\<open>x\<close>.

  \<open>unknown_discriminant\<close> holds of a discriminant that is not a numpy array and is none
  of the five strings that the loop tests for. A request is harmless when its
  discriminant is \<^verbatim>\<open>set_data\<close>, \<^verbatim>\<open>clear_all_data\<close> or such an unknown
  discriminant.
\<close>

definition fresh_pool :: "nat \<Rightarrow> pool" where
  "fresh_pool k = \<lparr>cpu_count = int k + 1, pipes = replicate k new_worker,
                   process_data = Map.empty\<rparr>"

definition single_pool :: pool where
  "single_pool = \<lparr>cpu_count = 1, pipes = [],
                  process_data = [''x'' \<mapsto> ListV [IntV 1, IntV 2]]\<rparr>"

definition is_array :: "val \<Rightarrow> bool" where
  "is_array v = (case v of ArrayV xs \<Rightarrow> True | _ \<Rightarrow> False)"

definition unknown_discriminant :: "val \<Rightarrow> bool" where
  "unknown_discriminant op =
     (op \<noteq> StrV ''shutdown'' \<and> op \<noteq> StrV ''set_data'' \<and> op \<noteq> StrV ''get_var''
      \<and> op \<noteq> StrV ''clear_all_data'' \<and> op \<noteq> StrV ''run_function'' \<and> \<not> is_array op)"

definition harmless :: "dict \<Rightarrow> bool" where
  "harmless request =
     (case request ''op'' of
        None \<Rightarrow> False
      | Some op \<Rightarrow> op = StrV ''set_data'' \<or> op = StrV ''clear_all_data''
                   \<or> unknown_discriminant op)"

section \<open>Properties of the partitioner\<close>

lemma tiles_sum: "tiles lo ps hi \<Longrightarrow> sum_list (map snd ps) = hi - lo"
  by (induction ps arbitrary: lo) auto

lemma tiles_lower: "tiles lo ps hi \<Longrightarrow> p \<in> set ps \<Longrightarrow> lo \<le> fst p"
  by (induction ps arbitrary: lo) fastforce+

lemma tiles_nonneg: "tiles lo ps hi \<Longrightarrow> p \<in> set ps \<Longrightarrow> 0 \<le> snd p"
  by (induction ps arbitrary: lo) fastforce+

lemma tiles_le: "tiles lo ps hi \<Longrightarrow> lo \<le> hi"
  by (induction ps arbitrary: lo) fastforce+

lemma tiles_upper: "tiles lo ps hi \<Longrightarrow> p \<in> set ps \<Longrightarrow> fst p + snd p \<le> hi"
proof (induction ps arbitrary: lo)
  case Nil
  then show ?case by simp
next
  case (Cons q ps)
  obtain off n where q: "q = (off, n)" by (cases q)
  from Cons.prems(1) q have t: "tiles (lo + n) ps hi" and o: "off = lo" by simp_all
  show ?case
  proof (cases "p = q")
    case True
    with q o tiles_le [OF t] show ?thesis by simp
  next
    case False
    with Cons.prems(2) have "p \<in> set ps" by simp
    from Cons.IH [OF t this] show ?thesis .
  qed
qed

lemma tiles_sorted: "tiles lo ps hi \<Longrightarrow> sorted (map fst ps)"
proof (induction ps arbitrary: lo)
  case Nil
  then show ?case by simp
next
  case (Cons q ps)
  obtain off n where q: "q = (off, n)" by (cases q)
  from Cons.prems q have t: "tiles (lo + n) ps hi" and o: "off = lo" and n: "0 \<le> n"
    by simp_all
  have "\<forall>p \<in> set ps. off \<le> fst p"
    using tiles_lower [OF t] o n by fastforce
  with Cons.IH [OF t] q show ?case by simp
qed

lemma length_split_special: "length (split_special start len k index) = k"
  by (induction k arbitrary: index) simp_all

lemma tiles_split_special:
  "index \<le> start + len \<Longrightarrow> start + len - index \<le> int k \<Longrightarrow>
   tiles index (split_special start len k index) (start + len)"
proof (induction k arbitrary: index)
  case 0
  then show ?case by simp
next
  case (Suc k)
  show ?case
  proof (cases "index < start + len")
    case True
    with Suc.prems have "tiles (index + 1) (split_special start len k (index + 1)) (start + len)"
      by (intro Suc.IH) simp_all
    with True show ?thesis by simp
  next
    case False
    with Suc.prems have "tiles index (split_special start len k index) (start + len)"
      by (intro Suc.IH) simp_all
    with False show ?thesis by simp
  qed
qed

lemma index_pairs_Cons:
  "map (\<lambda>i. ((x # y # ys) ! i, (x # y # ys) ! (i + 1) - (x # y # ys) ! i))
       [0..<length (x # y # ys) - 1]
   = (x, y - x) # map (\<lambda>i. ((y # ys) ! i, (y # ys) ! (i + 1) - (y # ys) ! i))
       [0..<length (y # ys) - 1]"
proof -
  have "[0..<length (x # y # ys) - 1] = 0 # map Suc [0..<length (y # ys) - 1]"
    by (simp add: upt_conv_Cons map_Suc_upt del: upt_Suc)
  then show ?thesis by (simp add: comp_def del: upt_Suc)
qed

lemma split_standard_diffs:
  "indices \<noteq> [] \<Longrightarrow> split_standard start len indices = Inr (diffs indices (start + len))"
proof (induction indices "start + len" rule: diffs.induct)
  case 1
  then show ?case by simp
next
  case (2 x)
  then show ?case by (simp add: split_standard_def)
next
  case (3 x y ys)
  from 3(1) have "split_standard start len (y # ys) = Inr (diffs (y # ys) (start + len))"
    by simp
  then show ?case
    unfolding split_standard_def Let_def index_pairs_Cons by simp
qed

lemma length_diffs: "length (diffs xs hi) = length xs"
  by (induction xs hi rule: diffs.induct) simp_all

lemma map_fst_diffs: "map fst (diffs xs hi) = xs"
  by (induction xs hi rule: diffs.induct) simp_all

lemma tiles_diffs:
  "xs \<noteq> [] \<Longrightarrow> sorted xs \<Longrightarrow> last xs \<le> hi \<Longrightarrow> tiles (hd xs) (diffs xs hi) hi"
  by (induction xs hi rule: diffs.induct) simp_all

lemma diffs_Nil_iff: "diffs xs hi = [] \<longleftrightarrow> xs = []"
  by (induction xs hi rule: diffs.induct) simp_all

lemma snd_last_diffs: "xs \<noteq> [] \<Longrightarrow> snd (last (diffs xs hi)) = hi - last xs"
  by (induction xs hi rule: diffs.induct) (simp_all add: diffs_Nil_iff)

lemma floor_indices_nonempty: "1 \<le> n \<Longrightarrow> floor_indices start len n \<noteq> []"
  by (simp add: floor_indices_def)

lemma floor_indices_hd: "1 \<le> n \<Longrightarrow> hd (floor_indices start len n) = start"
  by (simp add: floor_indices_def hd_map upt_conv_Cons)

lemma floor_indices_sorted: "0 \<le> len \<Longrightarrow> 1 \<le> n \<Longrightarrow> sorted (floor_indices start len n)"
proof -
  assume len: "0 \<le> len" and n: "1 \<le> n"
  have "(len * int i) div n \<le> (len * int j) div n" if "i \<le> j" for i j :: nat
  proof -
    from that len have "len * int i \<le> len * int j" by (simp add: mult_left_mono)
    moreover from n have "0 < n" by simp
    ultimately show ?thesis by (rule zdiv_mono1)
  qed
  then show ?thesis
    by (simp add: floor_indices_def sorted_iff_nth_mono del: upt_Suc)
qed

lemma floor_indices_last:
  "0 \<le> len \<Longrightarrow> 1 \<le> n \<Longrightarrow> last (floor_indices start len n) \<le> start + len"
proof -
  assume len: "0 \<le> len" and n: "1 \<le> n"
  have le: "(len * int i) div n \<le> len" if "i < nat n" for i
  proof -
    from that len have "len * int i \<le> len * n" by (intro mult_left_mono) simp_all
    moreover from n have "0 < n" by simp
    ultimately have "(len * int i) div n \<le> (len * n) div n" by (rule zdiv_mono1)
    with n show ?thesis by simp
  qed
  then have "\<forall>x \<in> set (floor_indices start len n). x \<le> start + len"
    by (auto simp: floor_indices_def)
  moreover from n have "last (floor_indices start len n) \<in> set (floor_indices start len n)"
    by (intro last_in_set floor_indices_nonempty)
  ultimately show ?thesis by blast
qed

lemma bit_length_bounds:
  "0 < a \<Longrightarrow> 2 ^ bit_length a \<le> 2 * a \<and> a < 2 ^ bit_length a"
proof (induction a rule: bit_length.induct)
  case (1 a)
  show ?case
  proof (cases "a = 1")
    case True
    then show ?thesis by (simp add: bit_length.simps [of 1] bit_length.simps [of 0])
  next
    case False
    with "1.prems" have h: "0 < a div 2" by simp
    from "1.prems" have "\<not> a \<le> 0" by simp
    from "1.IH" [OF this h] have ih: "2 ^ bit_length (a div 2) \<le> 2 * (a div 2)"
      "a div 2 < 2 ^ bit_length (a div 2)" by simp_all
    from "1.prems" have bl: "bit_length a = Suc (bit_length (a div 2))"
      by (simp add: bit_length.simps [of a])
    have "2 * (a div 2) \<le> a" by simp
    moreover have "a < 2 * (a div 2) + 2" by presburger
    ultimately show ?thesis using ih bl by simp
  qed
qed

lemma round_half_even_lower: "0 < d \<Longrightarrow> n div d \<le> round_half_even n d"
  by (simp add: round_half_even_def Let_def)

lemma round_half_even_upper:
  assumes "0 < d"
  shows "round_half_even n d \<le> (2 * n + d) div (2 * d)"
proof -
  let ?q = "n div d" and ?r = "n mod d"
  have r: "0 \<le> ?r" "?r < d" using assms by simp_all
  have "2 * n + d = 2 * (d * ?q + ?r) + d" by simp
  also have "\<dots> = (2 * ?r + d) + ?q * (2 * d)"
  proof -
    have "2 * (d * q + r) + d = (2 * r + d) + q * (2 * d)" for q r :: int
      by (simp add: algebra_simps)
    then show ?thesis .
  qed
  finally have "(2 * n + d) div (2 * d) = ((2 * ?r + d) + ?q * (2 * d)) div (2 * d)"
    by (rule arg_cong)
  also have "\<dots> = ?q + (2 * ?r + d) div (2 * d)"
    using assms by simp
  finally have eq: "(2 * n + d) div (2 * d) = ?q + (2 * ?r + d) div (2 * d)" .
  show ?thesis
  proof (cases "2 * ?r < d")
    case True
    then have "round_half_even n d = ?q" by (simp add: round_half_even_def Let_def)
    moreover have "0 \<le> (2 * ?r + d) div (2 * d)"
      using r assms by (simp add: pos_imp_zdiv_nonneg_iff)
    ultimately show ?thesis using eq by simp
  next
    case False
    then have "2 * d \<le> 2 * ?r + d" by simp
    then have "(2 * d) div (2 * d) \<le> (2 * ?r + d) div (2 * d)"
      using assms by (intro zdiv_mono1) simp_all
    then have "1 \<le> (2 * ?r + d) div (2 * d)"
      using assms by simp
    moreover have "round_half_even n d \<le> ?q + 1"
      by (simp add: round_half_even_def Let_def)
    ultimately show ?thesis using eq by simp
  qed
qed

lemma div_between:
  fixes m k c :: int
  assumes "k * c \<le> m" "m < (k + 1) * c" "0 < c"
  shows "m div c = k"
proof (rule int_div_pos_eq [of m c k "m - k * c"])
  show "m = c * k + (m - k * c)" by simp
  show "0 \<le> m - k * c" using assms by simp
  show "m - k * c < c" using assms by (simp add: algebra_simps)
qed

lemma shift_exchange:
  fixes a :: int
  assumes "n + p = k + q"
  shows "(a * 2 ^ n) * 2 ^ p = (a * 2 ^ q) * 2 ^ k"
proof -
  have "(a * 2 ^ n) * 2 ^ p = a * 2 ^ (n + p)" by (simp add: power_add)
  also have "\<dots> = a * 2 ^ (k + q)" using assms by simp
  also have "\<dots> = (a * 2 ^ q) * 2 ^ k" by (simp add: power_add)
  finally show ?thesis .
qed

lemma scaled_between:
  fixes N P X Y T b :: int
  assumes "N * P = X * T" "Y = b * P" "0 < P" "0 < T"
  shows "Y \<le> X \<Longrightarrow> b * T \<le> N" and "X < Y \<Longrightarrow> N < b * T"
proof -
  have eq: "(b * T) * P = Y * T" using assms(2) by (simp add: algebra_simps)
  {
    assume "Y \<le> X"
    then have "Y * T \<le> X * T" using assms(4) by simp
    then have "(b * T) * P \<le> N * P" unfolding eq assms(1) .
    then show "b * T \<le> N" using assms(3) by simp
  }
  {
    assume "X < Y"
    then have "X * T < Y * T" using assms(4) by simp
    then have "N * P < (b * T) * P" unfolding eq assms(1) .
    then show "N < b * T" using assms(3) by simp
  }
qed

lemma normalised:
  assumes a: "0 < a" "a < 2 ^ 53" and b: "0 < b"
  defines "s \<equiv> 52 - float_exponent a b"
  shows "0 \<le> s \<and> b * 2 ^ 52 \<le> a * 2 ^ nat s \<and> a * 2 ^ nat s < b * 2 ^ 53"
proof -
  define la lb where "la = bit_length a" and "lb = bit_length b"
  define d where "d = int la - int lb"
  define p q where "p = nat d" and "q = nat (- d)"
  from bit_length_bounds [OF a(1)] have A: "2 ^ la \<le> 2 * a" "a < 2 ^ la"
    by (simp_all add: la_def)
  from bit_length_bounds [OF b] have B: "2 ^ lb \<le> 2 * b" "b < 2 ^ lb"
    by (simp_all add: lb_def)
  have lb1: "1 \<le> lb"
  proof (rule ccontr)
    assume "\<not> 1 \<le> lb"
    then have "lb = 0" by simp
    with B(2) b show False by simp
  qed
  have la53: "la \<le> 53"
  proof (rule ccontr)
    assume "\<not> la \<le> 53"
    then have "54 \<le> la" by simp
    then have "(2::int) ^ 54 \<le> 2 ^ la" by (intro power_increasing) simp_all
    with A(1) a(2) show False by simp
  qed
  have pq: "la + q = lb + p"
    by (simp add: p_def q_def d_def) 
  have aq_lo: "b * 2 ^ p < 2 * (a * 2 ^ q)"
  proof -
    have "b * 2 ^ p < 2 ^ lb * 2 ^ p" using B(2) by simp
    also have "\<dots> = 2 ^ la * 2 ^ q" using pq by (simp add: power_add [symmetric] add.commute)
    also have "\<dots> \<le> (2 * a) * 2 ^ q" using A(1) by (intro mult_right_mono) simp_all
    finally show ?thesis by simp
  qed
  have aq_hi: "a * 2 ^ q < 2 * (b * 2 ^ p)"
  proof -
    have "a * 2 ^ q < 2 ^ la * 2 ^ q" using A(2) by simp
    also have "\<dots> = 2 ^ lb * 2 ^ p" using pq by (simp add: power_add [symmetric] add.commute)
    also have "\<dots> \<le> (2 * b) * 2 ^ p" using B(1) by (intro mult_right_mono) simp_all
    finally show ?thesis by simp
  qed
  show ?thesis
  proof (cases "b * 2 ^ p \<le> a * 2 ^ q")
    case True
    then have e: "float_exponent a b = d"
      by (simp add: float_exponent_def Let_def la_def lb_def d_def p_def q_def)
    from la53 lb1 have s0: "0 \<le> s" by (simp add: s_def e d_def)
    have sp: "nat s + p = 52 + q"
      using la53 lb1 by (simp add: s_def e p_def q_def d_def)
    have n52: "(a * 2 ^ nat s) * 2 ^ p = (a * 2 ^ q) * 2 ^ 52"
      using sp by (rule shift_exchange)
    have lo: "b * 2 ^ 52 \<le> a * 2 ^ nat s"
      by (rule scaled_between(1) [OF n52 refl _ _ True]) simp_all
    have n53: "(a * 2 ^ nat s) * 2 ^ Suc p = (a * 2 ^ q) * 2 ^ 53"
      by (rule shift_exchange) (use sp in simp)
    from aq_hi have "a * 2 ^ q < b * 2 ^ Suc p" by simp
    then have hi: "a * 2 ^ nat s < b * 2 ^ 53"
      by (intro scaled_between(2) [OF n53 refl]) simp_all
    from s0 lo hi show ?thesis by simp
  next
    case False
    then have e: "float_exponent a b = d - 1"
      by (simp add: float_exponent_def Let_def la_def lb_def d_def p_def q_def)
    from la53 lb1 have s0: "0 \<le> s" by (simp add: s_def e d_def)
    have sp: "nat s + p = 53 + q"
      using la53 lb1 by (simp add: s_def e p_def q_def d_def)
    have n53: "(a * 2 ^ nat s) * 2 ^ p = (a * 2 ^ q) * 2 ^ 53"
      using sp by (rule shift_exchange)
    from False have "a * 2 ^ q < b * 2 ^ p" by simp
    then have hi: "a * 2 ^ nat s < b * 2 ^ 53"
      by (intro scaled_between(2) [OF n53 refl]) simp_all
    have n52: "(a * 2 ^ nat s) * 2 ^ p = (a * 2 ^ Suc q) * 2 ^ 52"
      by (rule shift_exchange) (use sp in simp)
    from aq_lo have "b * 2 ^ p \<le> a * 2 ^ Suc q" by simp
    then have lo: "b * 2 ^ 52 \<le> a * 2 ^ nat s"
      by (intro scaled_between(1) [OF n52 refl]) simp_all
    from s0 lo hi show ?thesis by simp
  qed
qed

lemma quotient_bounds:
  fixes a b :: int
  assumes "0 < b"
  shows "(a div b) * b \<le> a" and "a < (a div b + 1) * b"
proof -
  have g: "q * b + r = a \<Longrightarrow> 0 \<le> r \<Longrightarrow> r < b \<Longrightarrow> q * b \<le> a \<and> a < (q + 1) * b"
    for q r :: int by (auto simp: algebra_simps)
  have "a div b * b + a mod b = a" by simp
  moreover have "0 \<le> a mod b" "a mod b < b" using assms by simp_all
  ultimately have "a div b * b \<le> a \<and> a < (a div b + 1) * b" by (rule g)
  then show "(a div b) * b \<le> a" and "a < (a div b + 1) * b" by simp_all
qed

lemma div_less_bound:
  fixes x y z :: int
  assumes "0 < y" "x < z * y"
  shows "x div y < z"
proof (rule ccontr)
  assume "\<not> x div y < z"
  then have "z * y \<le> (x div y) * y"
    using assms(1) by (intro mult_right_mono) simp_all
  also have "\<dots> \<le> x" using assms(1) by (rule quotient_bounds)
  finally show False using assms(2) by simp
qed

lemma rounded_quotient_exact:
  fixes a b c T m :: int
  assumes b: "0 < b" and c: "0 < c" and T: "0 < T" and a: "0 \<le> a" "a < 2 * T"
      and norm: "b * T \<le> a * c"
      and lo: "(a * c) div b \<le> m" and hi: "m \<le> (2 * (a * c) + b) div (2 * b)"
  shows "m div c = a div b"
proof (rule div_between)
  let ?k = "a div b"
  have k: "?k * b \<le> a" "a < (?k + 1) * b"
    using b by (rule quotient_bounds)+
  show "0 < c" by fact
  have "(?k * c) * b = (?k * b) * c" by (simp add: algebra_simps)
  also have "\<dots> \<le> a * c" using k(1) c by simp
  finally have "((?k * c) * b) div b \<le> (a * c) div b"
    using b by (intro zdiv_mono1)
  with b lo show "?k * c \<le> m" by simp
  have "b * T \<le> a * c" by fact
  also have "a * c < (2 * T) * c" using a(2) c by simp
  finally have "b * T < (2 * c) * T" by (simp add: algebra_simps)
  with T have bc: "b < 2 * c" by simp
  have "a + 1 \<le> (?k + 1) * b" using k(2) by simp
  then have "(a + 1) * (2 * c) \<le> ((?k + 1) * b) * (2 * c)"
    using c by (intro mult_right_mono) simp_all
  then have "2 * (a * c) + 2 * c \<le> ((?k + 1) * c) * (2 * b)"
    by (simp add: algebra_simps)
  with bc have "2 * (a * c) + b < ((?k + 1) * c) * (2 * b)" by simp
  then have "(2 * (a * c) + b) div (2 * b) < (?k + 1) * c"
    using b by (intro div_less_bound) simp_all
  with hi show "m < (?k + 1) * c" by simp
qed

lemma truediv_to_int_exact:
  assumes a: "0 < a" "a < 2 ^ 53" and b: "0 < b"
  shows "truediv_to_int a b = Inr (a div b)"
proof -
  define s where "s = 52 - float_exponent a b"
  define m where "m = round_half_even (a * 2 ^ nat s) b"
  from normalised [OF a b] have s: "0 \<le> s"
    and norm: "b * 2 ^ 52 \<le> a * 2 ^ nat s" "a * 2 ^ nat s < b * 2 ^ 53"
    by (simp_all add: s_def)
  from s have ns: "nat (- s) = 0" by simp
  have lo: "(a * 2 ^ nat s) div b \<le> m"
    unfolding m_def using b by (rule round_half_even_lower)
  have hi: "m \<le> (2 * (a * 2 ^ nat s) + b) div (2 * b)"
    unfolding m_def using b by (rule round_half_even_upper)
  have "a < 2 * 2 ^ 52" using a(2) by simp
  with a(1) have "m div 2 ^ nat s = a div b"
    by (intro rounded_quotient_exact [OF b _ _ _ _ norm(1) lo hi]) simp_all
  moreover have "m < 2 ^ 1024"
  proof -
    have "2 * (a * 2 ^ nat s) + b < (2 ^ 53 + 1) * (2 * b)"
      using norm(2) b by (simp add: algebra_simps)
    then have "(2 * (a * 2 ^ nat s) + b) div (2 * b) < 2 ^ 53 + 1"
      using b by (intro div_less_bound) simp_all
    with hi show ?thesis by simp
  qed
  ultimately show ?thesis
    using a(1) by (simp add: truediv_to_int_def Let_def s_def [symmetric] ns m_def [symmetric])
qed

lemma int_truediv_exact:
  assumes "0 \<le> a" "a < 2 ^ 53" "0 < b"
  shows "int_truediv a b = Inr (a div b)"
proof (cases "a = 0")
  case True
  with assms show ?thesis by (simp add: int_truediv_def truediv_to_int_def)
next
  case False
  with assms have "truediv_to_int a b = Inr (a div b)"
    by (intro truediv_to_int_exact) simp_all
  with assms show ?thesis by (simp add: int_truediv_def)
qed

lemma split_indices_loop_exact:
  "\<forall>i \<in> set is. int_truediv (len * int i) n = Inr ((len * int i) div n) \<Longrightarrow>
   split_indices_loop start len n is = Inr (map (\<lambda>i. start + (len * int i) div n) is)"
  by (induction "is") simp_all

lemma split_indices_exact:
  assumes len: "0 \<le> len" and n: "1 \<le> n" and bound: "len * n < 2 ^ 53"
  shows "split_indices start len n = Inr (floor_indices start len n)"
proof -
  have "int_truediv (len * int i) n = Inr ((len * int i) div n)" if "i \<in> set [0..<nat n]" for i
  proof (rule int_truediv_exact)
    from that have i: "int i \<le> n" by simp
    show "0 \<le> len * int i" using len by simp
    from i len have "len * int i \<le> len * n" by (intro mult_left_mono)
    with bound show "len * int i < 2 ^ 53" by simp
    show "0 < n" using n by simp
  qed
  then show ?thesis
    unfolding split_indices_def floor_indices_def by (intro split_indices_loop_exact) blast
qed

lemma py_split_standard:
  assumes "1 \<le> n" "n \<le> len" "len * n < 2 ^ 53"
  shows "py_split start len n = Inr (diffs (floor_indices start len n) (start + len))"
proof -
  from assms have "split_indices start len n = Inr (floor_indices start len n)"
    by (intro split_indices_exact) simp_all
  with assms show ?thesis
    by (simp add: py_split_def split_standard_diffs floor_indices_nonempty)
qed

lemma py_split_special:
  assumes "len < n"
  shows "py_split start len n = Inr (split_special start len (nat n) start)"
  using assms by (simp add: py_split_def)

lemma map_upt_Suc_shift: "map f [0..<Suc m] = f 0 # map (\<lambda>i. f (Suc i)) [0..<m]"
  by (simp add: upt_conv_Cons map_Suc_upt [symmetric] comp_def del: upt_Suc)

lemma split_special_closed:
  "index \<le> start + len \<Longrightarrow>
   split_special start len k index =
     map (\<lambda>i. (index + int i, 1)) [0..<min k (nat (start + len - index))]
     @ replicate (k - nat (start + len - index)) (start + len, 0)"
proof (induction k arbitrary: index)
  case 0
  then show ?case by simp
next
  case (Suc k)
  show ?case
  proof (cases "index < start + len")
    case True
    then obtain r where r: "nat (start + len - index) = Suc r"
      by (cases "nat (start + len - index)") simp_all
    then have r': "nat (start + len - (index + 1)) = r" by simp
    from True have "split_special start len k (index + 1) =
        map (\<lambda>i. (index + 1 + int i, 1)) [0..<min k r] @ replicate (k - r) (start + len, 0)"
      using Suc.IH [of "index + 1"] r' by simp
    with True r show ?thesis
      by (simp add: map_upt_Suc_shift add.assoc add.commute del: upt_Suc)
  next
    case False
    with Suc.prems have eq: "index = start + len" by simp
    with Suc.IH [of index] show ?thesis by simp
  qed
qed

lemma py_split_tiling:
  assumes "0 \<le> len" and "1 \<le> num_splits"
      and "len < num_splits \<or> len * num_splits < 2 ^ 53"
  shows "\<exists>ps. py_split start len num_splits = Inr ps \<and> length ps = nat num_splits
             \<and> tiles start ps (start + len)"
proof (cases "num_splits \<le> len")
  case True
  let ?xs = "floor_indices start len num_splits"
  have "tiles (hd ?xs) (diffs ?xs (start + len)) (start + len)"
    using assms by (intro tiles_diffs floor_indices_nonempty floor_indices_sorted
        floor_indices_last)
  with assms True show ?thesis
    by (simp add: py_split_standard floor_indices_hd length_diffs)
      (simp add: floor_indices_def)
next
  case False
  with assms have "tiles start (split_special start len (nat num_splits) start) (start + len)"
    by (intro tiles_split_special) simp_all
  with False show ?thesis
    by (simp add: py_split_special length_split_special)
qed

text \<open>
  C1, as stated: for every \<open>start\<close>, every \<open>len \<ge> 0\<close> and every \<open>num_splits \<ge> 1\<close>
  the partitioner returns \<open>num_splits\<close> pairs that tile \<open>[start, start + len)\<close>. In the
  standard case the breakpoints go through a float: at \<^verbatim>\<open>_split(0, 10**400, 2)\<close> the
  quotient \<^verbatim>\<open>10**400 * 1 / 2\<close> is too large for a double and the call raises
  \<^verbatim>\<open>OverflowError\<close> instead of returning.
\<close>

theorem split_overflow_counterexample:
  "py_split 0 (10 ^ 400) 2 = Inl OverflowError"
  by code_simp

text \<open>
  C1, amended: for every \<open>start\<close>, every \<open>len \<ge> 0\<close> and every \<open>num_splits \<ge> 1\<close> such
  that \<open>len < num_splits\<close> (the special case, which uses no float) or
  \<open>len * num_splits < 2\<^sup>5\<^sup>3\<close> (where the float division is exact), the partitioner
  returns exactly \<open>num_splits\<close> pairs; their lengths sum to \<open>len\<close>; their offsets are
  non-decreasing; and their ranges tile \<open>[start, start + len)\<close> without gaps or overlaps
  (so no range leaves that interval).
\<close>

theorem split_tiles:
  assumes "0 \<le> len" and "1 \<le> num_splits"
      and "len < num_splits \<or> len * num_splits < 2 ^ 53"
  shows "\<exists>ps. py_split start len num_splits = Inr ps
            \<and> length ps = nat num_splits
            \<and> sum_list (map snd ps) = len
            \<and> sorted (map fst ps)
            \<and> tiles start ps (start + len)
            \<and> (\<forall>p \<in> set ps. start \<le> fst p \<and> 0 \<le> snd p \<and> fst p + snd p \<le> start + len)"
proof -
  from py_split_tiling [OF assms, of start]
  obtain ps where ps: "py_split start len num_splits = Inr ps"
    "length ps = nat num_splits" "tiles start ps (start + len)" by blast
  have "sum_list (map snd ps) = len"
    using tiles_sum [OF ps(3)] by simp
  moreover have "sorted (map fst ps)"
    using ps(3) by (rule tiles_sorted)
  moreover have "\<forall>p \<in> set ps. start \<le> fst p \<and> 0 \<le> snd p \<and> fst p + snd p \<le> start + len"
    using tiles_lower [OF ps(3)] tiles_upper [OF ps(3)] tiles_nonneg [OF ps(3)] by blast
  ultimately show ?thesis using ps by blast
qed

theorem split_tiles_witness:
  "(0::int) \<le> 10 \<and> (1::int) \<le> 4 \<and> (10::int) * 4 < 2 ^ 53 \<and>
   (\<exists>ps. py_split 0 10 4 = Inr ps \<and> length ps = 4 \<and> sum_list (map snd ps) = 10
         \<and> sorted (map fst ps) \<and> tiles 0 ps 10)"
  using split_tiles [of 10 4 0] by simp blast

text \<open>
  C3. When \<open>0 \<le> len < num_splits\<close>, the first \<open>len\<close> pairs have length one at the
  consecutive offsets \<open>start, start + 1, \<dots>\<close>, and every remaining pair is
  \<open>(start + len, 0)\<close>; in particular \<^verbatim>\<open>_split(0, 3, 4)\<close> is
  \<open>[(0,1), (1,1), (2,1), (3,0)]\<close>.
\<close>

theorem split_degenerate:
  assumes "0 \<le> len" and "len < num_splits"
  shows "py_split start len num_splits =
           Inr (map (\<lambda>i. (start + int i, 1)) [0..<nat len]
                @ replicate (nat (num_splits - len)) (start + len, 0))
         \<and> py_split 0 3 4 = Inr [(0, 1), (1, 1), (2, 1), (3, 0)]"
proof -
  from assms have "min (nat num_splits) (nat len) = nat len" by simp
  moreover from assms have "nat num_splits - nat len = nat (num_splits - len)" by simp
  ultimately have "py_split start len num_splits =
           Inr (map (\<lambda>i. (start + int i, 1)) [0..<nat len]
                @ replicate (nat (num_splits - len)) (start + len, 0))"
    using assms split_special_closed [of start start len "nat num_splits"]
    by (simp add: py_split_special)
  moreover have "py_split 0 3 4 = Inr [(0, 1), (1, 1), (2, 1), (3, 0)]"
    by (simp add: py_split_def eval_nat_numeral)
  ultimately show ?thesis by simp
qed

theorem split_degenerate_witness:
  "(0::int) \<le> 2 \<and> (2::int) < 5 \<and>
   py_split 7 2 5 = Inr [(7, 1), (8, 1), (9, 0), (9, 0), (9, 0)]"
  using split_degenerate [of 2 5 7] by (simp add: eval_nat_numeral)

text \<open>
  C2, as stated: \<^verbatim>\<open>_split(0, 10, 4)\<close> returns \<open>[(0,2), (2,2), (4,3), (7,3)]\<close>, the
  breakpoints of the standard case being \<open>start + \<lfloor>length * i / numSplits\<rfloor>\<close>. The
  breakpoints of \<open>(0, 10, 4)\<close> are 0, 2, 5, 7, so the code returns another list. And the
  breakpoints are the floor only while the float division is exact: at
  \<^verbatim>\<open>_split(0, 10**16, 3)\<close> the third offset is 6666666666666667, one more than
  \<open>\<lfloor>2 * 10\<^sup>1\<^sup>6 / 3\<rfloor>\<close>.
\<close>

theorem split_0_10_4_counterexample:
  "py_split 0 10 4 \<noteq> Inr [(0, 2), (2, 2), (4, 3), (7, 3)]
   \<and> py_split 0 (10 ^ 16) 3 = Inr [(0, 3333333333333333),
                                   (3333333333333333, 3333333333333334),
                                   (6666666666666667, 3333333333333333)]
   \<and> (10 ^ 16 * 2) div 3 = (6666666666666666 :: int)"
  by code_simp

text \<open>
  C2, amended: \<^verbatim>\<open>_split(0, 10, 4)\<close> returns \<open>[(0,2), (2,3), (5,2), (7,3)]\<close>; in the
  standard case (\<open>1 \<le> num_splits \<le> len\<close>) with \<open>len * num_splits < 2\<^sup>5\<^sup>3\<close> the offsets
  are the breakpoints
  \<open>start + \<lfloor>len * i / num_splits\<rfloor>\<close> for \<open>i = 0, \<dots>, num_splits - 1\<close>, the last pair
  takes what is left up to \<open>start + len\<close>, and the lengths total \<open>len\<close>.
\<close>

theorem split_breakpoints:
  "py_split 0 10 4 = Inr [(0, 2), (2, 3), (5, 2), (7, 3)]
   \<and> (\<forall>start len num_splits.
        1 \<le> num_splits \<and> num_splits \<le> len \<and> len * num_splits < 2 ^ 53 \<longrightarrow>
        (\<exists>ps. py_split start len num_splits = Inr ps
          \<and> map fst ps = map (\<lambda>i. start + (len * int i) div num_splits) [0..<nat num_splits]
          \<and> snd (last ps) = start + len - (start + (len * (num_splits - 1)) div num_splits)
          \<and> sum_list (map snd ps) = len))"
proof -
  have "py_split 0 10 4 = Inr [(0, 2), (2, 3), (5, 2), (7, 3)]"
    by (simp add: py_split_standard floor_indices_def eval_nat_numeral)
  moreover have "\<exists>ps. py_split start len n = Inr ps
          \<and> map fst ps = map (\<lambda>i. start + (len * int i) div n) [0..<nat n]
          \<and> snd (last ps) = start + len - (start + (len * (n - 1)) div n)
          \<and> sum_list (map snd ps) = len"
    if n: "1 \<le> n" "n \<le> len" "len * n < 2 ^ 53" for start len n
  proof -
    let ?xs = "floor_indices start len n"
    let ?ps = "diffs ?xs (start + len)"
    from n have ne: "?xs \<noteq> []" by (intro floor_indices_nonempty)
    from n have len: "0 \<le> len" by simp
    have "tiles (hd ?xs) ?ps (start + len)"
      using n len ne by (intro tiles_diffs floor_indices_sorted floor_indices_last)
    then have "sum_list (map snd ?ps) = start + len - hd ?xs" by (rule tiles_sum)
    with n have sum: "sum_list (map snd ?ps) = len" by (simp add: floor_indices_hd)
    from n have "last ?xs = start + (len * int (nat n - 1)) div n"
      using ne by (simp add: floor_indices_def last_conv_nth del: upt_Suc)
    also from n have "int (nat n - 1) = n - 1" by simp
    finally have "snd (last ?ps) = start + len - (start + (len * (n - 1)) div n)"
      using ne by (simp add: snd_last_diffs)
    moreover have "map fst ?ps = map (\<lambda>i. start + (len * int i) div n) [0..<nat n]"
      by (simp add: map_fst_diffs) (simp add: floor_indices_def)
    ultimately show ?thesis using n sum by (simp add: py_split_standard)
  qed
  ultimately show ?thesis by blast
qed

theorem split_breakpoints_witness:
  "\<exists>ps. py_split 10 8 4 = Inr ps \<and> map fst ps = [10, 12, 14, 16]
      \<and> snd (last ps) = 2 \<and> sum_list (map snd ps) = 8"
proof -
  from split_breakpoints have "(1::int) \<le> 4 \<and> (4::int) \<le> 8 \<and> (8::int) * 4 < 2 ^ 53 \<longrightarrow>
        (\<exists>ps. py_split 10 8 4 = Inr ps
          \<and> map fst ps = map (\<lambda>i. 10 + (8 * int i) div 4) [0..<nat 4]
          \<and> snd (last ps) = 10 + 8 - (10 + (8 * (4 - 1)) div 4)
          \<and> sum_list (map snd ps) = 8)" by blast
  then show ?thesis by (simp add: eval_nat_numeral)
qed

section \<open>The message loop\<close>

lemma truth_raises_simps [simp]:
  "truth_raises (StrV s) = False" "truth_raises NoneV = False"
  "truth_raises (IntV n) = False" "truth_raises (ListV xs) = False"
  "truth_raises (ArrayV ns) = (length ns \<noteq> 1)"
  by (simp_all add: truth_raises_def)

lemma pipe_send_eq:
  "pipe_send reg request w =
     (if w_status w = Listening then handle_request reg request w else w)"
  by (simp add: pipe_send_def)

lemma handle_unknown:
  "request ''op'' = Some op \<Longrightarrow> unknown_discriminant op \<Longrightarrow>
   handle_request reg request w = w"
  by (simp add: handle_request_def unknown_discriminant_def truth_raises_def is_array_def
      split: val.splits)

lemma handle_status_Stopped:
  "w_status w = Listening \<Longrightarrow> w_status (handle_request reg request w) = Stopped \<Longrightarrow>
   request ''op'' = Some (StrV ''shutdown'')"
  by (auto simp: handle_request_def crash_def get_var_def run_op_def truth_raises_def
      split: option.splits if_splits val.splits sum.splits)

lemma message_loop_Stopped:
  "w_status w = Listening \<Longrightarrow> w_status (message_loop reg requests w) = Stopped \<Longrightarrow>
   \<exists>request \<in> set requests. request ''op'' = Some (StrV ''shutdown'')"
proof (induction requests arbitrary: w)
  case Nil
  then show ?case by simp
next
  case (Cons request rest)
  let ?w' = "handle_request reg request w"
  from Cons.prems have run: "w_status (message_loop reg rest ?w') = Stopped" by simp
  show ?case
  proof (cases "w_status ?w' = Listening")
    case True
    from Cons.IH [OF True run] show ?thesis by auto
  next
    case False
    then have "message_loop reg rest ?w' = ?w'" by (cases rest) simp_all
    with run have "w_status ?w' = Stopped" by simp
    with Cons.prems(1) have "request ''op'' = Some (StrV ''shutdown'')"
      by (rule handle_status_Stopped)
    then show ?thesis by simp
  qed
qed

lemma handle_harmless:
  "harmless request \<Longrightarrow> w_status (handle_request reg request w) = w_status w"
  by (auto simp: harmless_def handle_request_def unknown_discriminant_def truth_raises_def
      is_array_def split: option.splits val.splits)

lemma message_loop_harmless:
  "\<forall>request \<in> set requests. harmless request \<Longrightarrow> w_status w = Listening \<Longrightarrow>
   w_status (message_loop reg requests w) = Listening"
  by (induction requests arbitrary: w) (simp_all add: handle_harmless)

lemma message_loop_shutdown:
  "w_status w = Listening \<Longrightarrow> request ''op'' = Some (StrV ''shutdown'') \<Longrightarrow>
   message_loop reg (request # rest) w = w\<lparr>w_status := Stopped\<rparr>"
  by (cases rest) (simp_all add: handle_request_def)

text \<open>
  C7, as stated: for every sequence of requests the loop terminates only upon receiving a
  shutdown request. A \<^verbatim>\<open>get_var\<close> request for a name that the store does not hold
  raises \<^verbatim>\<open>KeyError\<close> at \<^verbatim>\<open>_process_data[var_name]\<close>; nothing catches it, so
  the loop and the worker end although no shutdown request was received.
\<close>

theorem message_loop_crash_counterexample:
  "w_status (message_loop Map.empty [get_var_request ''x''] new_worker)
     = Crashed (KeyError (StrV ''x''))
   \<and> get_var_request ''x'' ''op'' \<noteq> Some (StrV ''shutdown'')"
  by (simp add: get_var_request_def new_worker_def handle_request_def get_var_def crash_def)

text \<open>
  C7, amended: for every sequence of requests delivered to a listening worker, the loop
  returns only upon receiving a shutdown request. Call a discriminant unknown when it is
  not a numpy array and is none of the five strings the loop tests for: the loop keeps
  listening through every sequence of \<^verbatim>\<open>set_data\<close>, \<^verbatim>\<open>clear_all_data\<close> and
  unknown-discriminant requests, and a request with an unknown discriminant changes
  nothing (store, replies and state are as before, and the loop goes on with the next
  request). The loop can also end by an uncaught exception, as the \<^verbatim>\<open>get_var\<close>
  above, or as a discriminant that is a numpy array, whose comparison with a string has
  no truth value unless it has exactly one element.
\<close>

theorem message_loop_ends:
  "(w_status w = Listening \<and> w_status (message_loop reg requests w) = Stopped \<longrightarrow>
      (\<exists>request \<in> set requests. request ''op'' = Some (StrV ''shutdown'')))
   \<and> (w_status w = Listening \<and> (\<forall>request \<in> set requests. harmless request) \<longrightarrow>
      w_status (message_loop reg requests w) = Listening)
   \<and> (w_status w = Listening \<and> request ''op'' = Some op \<and> unknown_discriminant op \<longrightarrow>
      handle_request reg request w = w
      \<and> message_loop reg (request # requests) w = message_loop reg requests w)"
  using message_loop_Stopped [of w reg requests] message_loop_harmless [of requests w reg]
    handle_unknown [of request op reg w]
  by auto

theorem message_loop_ends_witness:
  "(\<exists>request \<in> set [[''op'' \<mapsto> StrV ''set_data'', ''x'' \<mapsto> IntV 5],
                      [''op'' \<mapsto> StrV ''shutdown'']].
       request ''op'' = Some (StrV ''shutdown''))
   \<and> w_status (message_loop Map.empty
      [[''op'' \<mapsto> StrV ''set_data'', ''x'' \<mapsto> IntV 5], [''op'' \<mapsto> StrV ''frobnicate'']]
      new_worker) = Listening
   \<and> handle_request Map.empty [''op'' \<mapsto> StrV ''frobnicate''] new_worker = new_worker"
proof -
  let ?set = "[''op'' \<mapsto> StrV ''set_data'', ''x'' \<mapsto> IntV 5]"
  let ?down = "[''op'' \<mapsto> StrV ''shutdown'']"
  let ?odd = "[''op'' \<mapsto> StrV ''frobnicate'']"
  have l: "w_status new_worker = Listening" by (simp add: new_worker_def)
  have s: "w_status (message_loop Map.empty [?set, ?down] new_worker) = Stopped"
    by (simp add: new_worker_def handle_request_def)
  have h: "\<forall>request \<in> set [?set, ?odd]. harmless request"
    by (simp add: harmless_def unknown_discriminant_def is_array_def)
  have u: "?odd ''op'' = Some (StrV ''frobnicate'')" "unknown_discriminant (StrV ''frobnicate'')"
    by (simp_all add: unknown_discriminant_def is_array_def)
  from message_loop_ends [of new_worker Map.empty "[?set, ?down]" ?odd "StrV ''frobnicate''"] l s
  have "\<exists>request \<in> set [?set, ?down]. request ''op'' = Some (StrV ''shutdown'')" by blast
  moreover
  from message_loop_ends [of new_worker Map.empty "[?set, ?odd]" ?odd "StrV ''frobnicate''"] l h u
  have "w_status (message_loop Map.empty [?set, ?odd] new_worker) = Listening"
    "handle_request Map.empty ?odd new_worker = new_worker" by blast+
  ultimately show ?thesis by blast
qed

section \<open>Broadcast\<close>

lemma set_data_op_update:
  "data_dict ''op'' = None \<Longrightarrow> set_data (data_dict(''op'' \<mapsto> v)) st = st ++ data_dict"
  by (rule ext) (simp add: set_data_def map_add_def split: option.splits)

lemma handle_set_data:
  "request ''op'' = Some (StrV ''set_data'') \<Longrightarrow>
   handle_request reg request w = w\<lparr>w_store := set_data request (w_store w)\<rparr>"
  by (simp add: handle_request_def)

lemma pipe_send_broadcast:
  "data_dict ''op'' = None \<Longrightarrow> w_status w = Listening \<Longrightarrow>
   pipe_send reg (data_dict(''op'' \<mapsto> StrV ''set_data'')) w
     = w\<lparr>w_store := w_store w ++ data_dict\<rparr>"
  by (simp add: pipe_send_eq handle_set_data set_data_op_update)

text \<open>
  C8, as stated: for entries without the key \<^verbatim>\<open>op\<close>, after \<^verbatim>\<open>send_same_data\<close>
  no store contains the key \<^verbatim>\<open>op\<close>. The call removes nothing from a store: after
  \<^verbatim>\<open>split_list_and_send([1, 2], "op")\<close> on one worker, which returns normally and
  leaves the worker listening, the main store holds \<^verbatim>\<open>[2]\<close> under \<^verbatim>\<open>op\<close>, and
  it still does after \<^verbatim>\<open>send_same_data({"x": 5})\<close>.
\<close>

theorem send_same_data_op_counterexample:
  "fst (split_list_and_send Map.empty [IntV 1, IntV 2] ''op'' (fresh_pool 1)) = None
   \<and> map w_status
         (pipes (snd (split_list_and_send Map.empty [IntV 1, IntV 2] ''op'' (fresh_pool 1))))
       = [Listening]
   \<and> [''x'' \<mapsto> IntV 5] ''op'' = None
   \<and> process_data
         (snd (send_same_data Map.empty [''x'' \<mapsto> IntV 5]
            (snd (split_list_and_send Map.empty [IntV 1, IntV 2] ''op'' (fresh_pool 1)))))
         ''op'' = Some (ListV [IntV 2])"
  by (simp add: split_list_and_send_def py_split_def split_indices_exact floor_indices_def
      split_standard_def send_same_data_def pipe_send_def handle_request_def set_data_def
      fresh_pool_def new_worker_def py_slice_def py_slice_from_def slice_index_def
      eval_nat_numeral Let_def)

text \<open>
  C8, amended: when the entries do not contain the key \<^verbatim>\<open>op\<close> and the workers
  listen, after \<^verbatim>\<open>send_same_data\<close> the store of the main process and the store of
  every worker map each entry key to its value; the pool has the same workers; and if no
  store contained the key \<^verbatim>\<open>op\<close> before the call, none contains it afterwards.
\<close>

theorem send_same_data_stores:
  assumes "data_dict ''op'' = None"
      and "\<forall>w \<in> set (pipes p). w_status w = Listening"
  shows "case send_same_data reg data_dict p of (request, p') \<Rightarrow>
           length (pipes p') = length (pipes p)
         \<and> (\<forall>key v. data_dict key = Some v \<longrightarrow>
               process_data p' key = Some v \<and> (\<forall>w \<in> set (pipes p'). w_store w key = Some v))
         \<and> (process_data p ''op'' = None \<and> (\<forall>w \<in> set (pipes p). w_store w ''op'' = None) \<longrightarrow>
               process_data p' ''op'' = None \<and> (\<forall>w \<in> set (pipes p'). w_store w ''op'' = None))"
proof -
  let ?request = "data_dict(''op'' \<mapsto> StrV ''set_data'')"
  have ws: "map (pipe_send reg ?request) (pipes p)
          = map (\<lambda>w. w\<lparr>w_store := w_store w ++ data_dict\<rparr>) (pipes p)"
    using assms by (intro map_cong refl pipe_send_broadcast) simp_all
  show ?thesis
    using assms(1) by (auto simp: send_same_data_def Let_def ws map_add_def)
qed

theorem send_same_data_stores_witness:
  "case send_same_data Map.empty [''x'' \<mapsto> IntV 5] (fresh_pool 2) of
     (request, p') \<Rightarrow>
        length (pipes p') = 2
      \<and> process_data p' ''x'' = Some (IntV 5) \<and> process_data p' ''op'' = None
      \<and> (\<forall>w \<in> set (pipes p'). w_store w ''x'' = Some (IntV 5) \<and> w_store w ''op'' = None)"
  using send_same_data_stores [of "[''x'' \<mapsto> IntV 5]" "fresh_pool 2" Map.empty]
  by (auto simp: fresh_pool_def new_worker_def eval_nat_numeral split: prod.splits)

section \<open>Remote invocation\<close>

text \<open>
  C5. When the argument dictionary contains the key \<^verbatim>\<open>op\<close> or the key
  \<^verbatim>\<open>op_name\<close>, \<^verbatim>\<open>run_function\<close> raises the reserved-key exception and leaves the
  whole pool as it was: no worker has received anything, no store and no pipe has
  changed, and the caller's dictionary is untouched. When the dictionary contains neither
  key (or is \<^verbatim>\<open>None\<close>), that exception is not raised.
\<close>

theorem run_function_reserved_keys:
  "(arg_dict ''op'' \<noteq> None \<or> arg_dict ''op_name'' \<noteq> None \<longrightarrow>
      run_function reg function_name (Some arg_dict) p
        = (Some InvalidArgument, Some arg_dict, p))
   \<and> (arg_dict ''op'' = None \<and> arg_dict ''op_name'' = None \<longrightarrow>
      fst (run_function reg function_name (Some arg_dict) p) \<noteq> Some InvalidArgument)
   \<and> fst (run_function reg function_name None p) \<noteq> Some InvalidArgument"
  by (auto simp: run_function_def Let_def split: option.splits sum.splits)

theorem run_function_reserved_keys_witness:
  "run_function Map.empty ''f'' (Some [''op'' \<mapsto> StrV ''x'']) (fresh_pool 1)
     = (Some InvalidArgument, Some [''op'' \<mapsto> StrV ''x''], fresh_pool 1)
   \<and> run_function Map.empty ''f'' (Some [''op_name'' \<mapsto> StrV ''x'']) (fresh_pool 1)
     = (Some InvalidArgument, Some [''op_name'' \<mapsto> StrV ''x''], fresh_pool 1)
   \<and> fst (run_function Map.empty ''f'' (Some [''n'' \<mapsto> IntV 3]) (fresh_pool 1))
     \<noteq> Some InvalidArgument"
  using run_function_reserved_keys [of "[''op'' \<mapsto> StrV ''x'']" Map.empty "''f''" "fresh_pool 1"]
        run_function_reserved_keys [of "[''op_name'' \<mapsto> StrV ''x'']" Map.empty "''f''" "fresh_pool 1"]
        run_function_reserved_keys [of "[''n'' \<mapsto> IntV 3]" Map.empty "''f''" "fresh_pool 1"]
  by simp

lemma handle_run_function:
  "request ''op'' = Some (StrV ''run_function'') \<Longrightarrow>
   handle_request reg request w = run_op reg request w"
  by (simp add: handle_request_def)

lemma pipe_send_unregistered:
  "request ''op'' = Some (StrV ''run_function'') \<Longrightarrow>
   request ''op_name'' = Some (StrV op_name) \<Longrightarrow> reg op_name = None \<Longrightarrow>
   pipe_send reg request w = w"
  by (simp add: pipe_send_eq handle_run_function run_op_def)

text \<open>
  C6. \<^verbatim>\<open>run_function("doesNotExist", {})\<close> with a registry that has no such name:
  every worker tests \<^verbatim>\<open>op_name in globals()\<close>, prints and goes on, so the pool is
  unchanged; the main process then evaluates \<^verbatim>\<open>globals()[function_name]\<close> without
  that test and raises \<^verbatim>\<open>KeyError\<close>.
\<close>

theorem run_function_unknown_name:
  "run_function [''_create_data'' \<mapsto> f] ''doesNotExist'' (Some Map.empty) p
     = (Some (KeyError (StrV ''doesNotExist'')),
        Some [''op'' \<mapsto> StrV ''run_function'', ''op_name'' \<mapsto> StrV ''doesNotExist''],
        p)"
proof -
  let ?reg = "[''_create_data'' \<mapsto> f]"
  let ?request = "[''op'' \<mapsto> StrV ''run_function'', ''op_name'' \<mapsto> StrV ''doesNotExist'']"
  have "pipe_send ?reg ?request w = w" for w
    by (rule pipe_send_unregistered [where op_name = "''doesNotExist''"]) simp_all
  then have "map (pipe_send ?reg ?request) (pipes p) = pipes p"
    by (simp add: map_idI)
  then show ?thesis
    by (simp add: run_function_def Let_def)
qed

theorem run_function_unknown_name_witness:
  "run_function [''_create_data'' \<mapsto> (\<lambda>request st. Inr st)] ''doesNotExist''
       (Some Map.empty) (fresh_pool 2)
     = (Some (KeyError (StrV ''doesNotExist'')),
        Some [''op'' \<mapsto> StrV ''run_function'', ''op_name'' \<mapsto> StrV ''doesNotExist''],
        fresh_pool 2)"
  using run_function_unknown_name [of "\<lambda>request st. Inr st" "fresh_pool 2"] by simp

text \<open>
  C10. The caller's dictionary is the request: after \<^verbatim>\<open>send_same_data\<close> it maps
  \<^verbatim>\<open>op\<close> to \<^verbatim>\<open>set_data\<close>, and passing it on to \<^verbatim>\<open>run_function\<close> fails the
  reserved-key check; after \<^verbatim>\<open>run_function\<close> on a dictionary without reserved keys
  (whether the call returns or the operation raises) it maps \<^verbatim>\<open>op\<close> to
  \<^verbatim>\<open>run_function\<close> and \<^verbatim>\<open>op_name\<close> to the function name, and a second
  \<^verbatim>\<open>run_function\<close> with the same dictionary fails the reserved-key check and changes
  nothing.
\<close>

theorem caller_map_mutated:
  "fst (send_same_data reg data_dict p) = data_dict(''op'' \<mapsto> StrV ''set_data'')
   \<and> fst (run_function reg g (Some (fst (send_same_data reg data_dict p))) q)
       = Some InvalidArgument
   \<and> (arg_dict ''op'' = None \<and> arg_dict ''op_name'' = None \<longrightarrow>
       (case run_function reg function_name (Some arg_dict) p of
          (e, arg', p') \<Rightarrow>
             arg' = Some (arg_dict(''op'' \<mapsto> StrV ''run_function'',
                                   ''op_name'' \<mapsto> StrV function_name))
           \<and> run_function reg g arg' p' = (Some InvalidArgument, arg', p')))"
  by (auto simp: send_same_data_def run_function_def Let_def split: option.splits sum.splits)

theorem caller_map_mutated_witness:
  "case run_function Map.empty ''f'' (Some [''n'' \<mapsto> IntV 3]) (fresh_pool 1) of
     (e, arg', p') \<Rightarrow>
        arg' = Some [''n'' \<mapsto> IntV 3, ''op'' \<mapsto> StrV ''run_function'',
                     ''op_name'' \<mapsto> StrV ''f'']
      \<and> run_function Map.empty ''f'' arg' p' = (Some InvalidArgument, arg', p')"
  using caller_map_mutated [of Map.empty "[''n'' \<mapsto> IntV 3]" "fresh_pool 1" "''f''"
      "fresh_pool 1" "[''n'' \<mapsto> IntV 3]" "''f''"]
  by simp

section \<open>Aggregation\<close>

text \<open>
  When every worker listens, has no unread reply and holds a list (for the numpy
  variant, an array) under the name, and so does the main process, \<^verbatim>\<open>concat_var_into_list\<close> returns the values of
  worker 0, worker 1, and so on, then the value of the main process, appended in that
  order, and leaves the pool as it was; \<^verbatim>\<open>concat_var_into_numpy_array\<close> does the
  same on arrays as soon as the pool has one worker.
\<close>

lemma handle_get_var:
  "request ''op'' = Some (StrV ''get_var'') \<Longrightarrow>
   handle_request reg request w = get_var request w"
  by (simp add: handle_request_def)

lemma pipe_send_get_var:
  "w_status w = Listening \<Longrightarrow> w_store w var_name = Some v \<Longrightarrow>
   pipe_send reg (get_var_request var_name) w = w\<lparr>w_replies := w_replies w @ [v]\<rparr>"
  by (simp add: pipe_send_eq handle_get_var get_var_def get_var_request_def)

lemma recv_extend_lists:
  "map w_replies ws = map (\<lambda>xs. [ListV xs]) xss \<Longrightarrow>
   recv_extend var_list ws
     = (Inr (var_list @ concat xss), map (\<lambda>w. w\<lparr>w_replies := []\<rparr>) ws)"
proof (induction ws arbitrary: var_list xss)
  case Nil
  then show ?case by simp
next
  case (Cons w ws)
  then obtain xs rest where xss: "xss = xs # rest" by (cases xss) auto
  with Cons.prems have w: "w_replies w = [ListV xs]"
    and rest: "map w_replies ws = map (\<lambda>xs. [ListV xs]) rest" by simp_all
  from w have "pipe_recv w = Inr (ListV xs, w\<lparr>w_replies := []\<rparr>)"
    by (simp add: pipe_recv_def)
  then show ?case
    by (simp add: list_extend_def Cons.IH [OF rest] xss)
qed

lemma concat_var_into_list_order:
  assumes ready: "\<forall>w \<in> set (pipes p). w_status w = Listening \<and> w_replies w = []"
      and stores: "map (\<lambda>w. w_store w var_name) (pipes p) = map (\<lambda>xs. Some (ListV xs)) xss"
      and own: "process_data p var_name = Some (ListV own)"
  shows "concat_var_into_list reg var_name p = (Inr (concat xss @ own), p)"
proof -
  let ?sent = "map (pipe_send reg (get_var_request var_name)) (pipes p)"
  have len: "length xss = length (pipes p)"
    using stores by (metis length_map)
  have "w_replies (?sent ! i) = [ListV (xss ! i)] \<and> (?sent ! i)\<lparr>w_replies := []\<rparr> = pipes p ! i"
    if i: "i < length (pipes p)" for i
  proof -
    let ?w = "pipes p ! i"
    from i ready have w: "w_status ?w = Listening" "w_replies ?w = []" by simp_all
    from i len have "w_store ?w var_name = Some (ListV (xss ! i))"
      using arg_cong [OF stores, of "\<lambda>l. l ! i"] by simp
    with w i show ?thesis by (simp add: pipe_send_get_var)
  qed
  then have replies: "map w_replies ?sent = map (\<lambda>xs. [ListV xs]) xss"
    and undo: "map (\<lambda>w. w\<lparr>w_replies := []\<rparr>) ?sent = pipes p"
    using len by (simp_all add: list_eq_iff_nth_eq)
  have "recv_extend [] ?sent = (Inr (concat xss), pipes p)"
    using recv_extend_lists [OF replies, of "[]"] undo by simp
  then show ?thesis
    by (simp add: concat_var_into_list_def own list_extend_def)
qed

lemma recv_concatenate_arrays:
  "map w_replies ws = map (\<lambda>xs. [ArrayV xs]) xss \<Longrightarrow>
   recv_concatenate (ArrayV acc) ws
     = (Inr (ArrayV (acc @ concat xss)), map (\<lambda>w. w\<lparr>w_replies := []\<rparr>) ws)"
proof (induction ws arbitrary: acc xss)
  case Nil
  then show ?case by simp
next
  case (Cons w ws)
  then obtain xs rest where xss: "xss = xs # rest" by (cases xss) auto
  with Cons.prems have w: "w_replies w = [ArrayV xs]"
    and rest: "map w_replies ws = map (\<lambda>xs. [ArrayV xs]) rest" by simp_all
  from w have "pipe_recv w = Inr (ArrayV xs, w\<lparr>w_replies := []\<rparr>)"
    by (simp add: pipe_recv_def)
  then show ?case
    by (simp add: np_concatenate_def np_elements_def Cons.IH [OF rest] xss)
qed

lemma recv_concatenate_first:
  assumes "map w_replies ws = map (\<lambda>xs. [ArrayV xs]) xss" and "ws \<noteq> []"
  shows "recv_concatenate NoneV ws
     = (Inr (ArrayV (concat xss)), map (\<lambda>w. w\<lparr>w_replies := []\<rparr>) ws)"
proof -
  from assms obtain w rest where ws: "ws = w # rest" by (cases ws) auto
  with assms obtain xs yss where xss: "xss = xs # yss" by (cases xss) auto
  with assms ws have w: "w_replies w = [ArrayV xs]"
    and rest: "map w_replies rest = map (\<lambda>xs. [ArrayV xs]) yss" by simp_all
  from w have "pipe_recv w = Inr (ArrayV xs, w\<lparr>w_replies := []\<rparr>)"
    by (simp add: pipe_recv_def)
  then show ?thesis
    by (simp add: ws xss recv_concatenate_arrays [OF rest])
qed

lemma concat_var_into_numpy_array_order:
  assumes ready: "\<forall>w \<in> set (pipes p). w_status w = Listening \<and> w_replies w = []"
      and stores: "map (\<lambda>w. w_store w var_name) (pipes p) = map (\<lambda>xs. Some (ArrayV xs)) xss"
      and own: "process_data p var_name = Some (ArrayV mine)"
      and workers: "pipes p \<noteq> []"
  shows "concat_var_into_numpy_array reg var_name p = (Inr (ArrayV (concat xss @ mine)), p)"
proof -
  let ?sent = "map (pipe_send reg (get_var_request var_name)) (pipes p)"
  have len: "length xss = length (pipes p)"
    using stores by (metis length_map)
  have "w_replies (?sent ! i) = [ArrayV (xss ! i)] \<and> (?sent ! i)\<lparr>w_replies := []\<rparr> = pipes p ! i"
    if i: "i < length (pipes p)" for i
  proof -
    let ?w = "pipes p ! i"
    from i ready have w: "w_status ?w = Listening" "w_replies ?w = []" by simp_all
    from i len have "w_store ?w var_name = Some (ArrayV (xss ! i))"
      using arg_cong [OF stores, of "\<lambda>l. l ! i"] by simp
    with w i show ?thesis by (simp add: pipe_send_get_var)
  qed
  then have replies: "map w_replies ?sent = map (\<lambda>xs. [ArrayV xs]) xss"
    and undo: "map (\<lambda>w. w\<lparr>w_replies := []\<rparr>) ?sent = pipes p"
    using len by (simp_all add: list_eq_iff_nth_eq)
  from workers have "?sent \<noteq> []" by simp
  from recv_concatenate_first [OF replies this] undo
  have "recv_concatenate NoneV ?sent = (Inr (ArrayV (concat xss)), pipes p)" by simp
  then show ?thesis
    by (simp add: concat_var_into_numpy_array_def own np_concatenate_def np_elements_def)
qed

text \<open>
  C9. On a machine with one processor the pool has no worker. With the list
  \<^verbatim>\<open>[1, 2]\<close> stored under \<^verbatim>\<open>x\<close> in the main process,
  \<^verbatim>\<open>concat_var_into_list\<close> returns \<^verbatim>\<open>[1, 2]\<close>, while in
  \<^verbatim>\<open>concat_var_into_numpy_array\<close> the loop over the pipes never runs,
  \<^verbatim>\<open>var_array\<close> is still \<^verbatim>\<open>None\<close>, and
  \<^verbatim>\<open>numpy.concatenate((None, [1, 2]))\<close> raises \<^verbatim>\<open>ValueError\<close>.
\<close>

theorem concat_numpy_no_workers:
  "fst (concat_var_into_numpy_array reg ''x'' single_pool) = Inl ValueError
   \<and> fst (concat_var_into_list reg ''x'' single_pool) = Inr [IntV 1, IntV 2]"
  by (simp add: concat_var_into_numpy_array_def concat_var_into_list_def single_pool_def
      np_concatenate_def np_elements_def list_extend_def)

theorem concat_numpy_no_workers_witness:
  "fst (concat_var_into_numpy_array Map.empty ''x'' single_pool) = Inl ValueError
   \<and> fst (concat_var_into_list Map.empty ''x'' single_pool) = Inr [IntV 1, IntV 2]"
  using concat_numpy_no_workers [of Map.empty] by simp

section \<open>Scatter and gather\<close>

lemma py_slice_nonneg:
  "0 \<le> a \<Longrightarrow> a \<le> b \<Longrightarrow> b \<le> int (length xs) \<Longrightarrow>
   py_slice xs a b = take (nat b - nat a) (drop (nat a) xs)"
  by (simp add: py_slice_def slice_index_def Let_def nat_le_iff min_absorb1)

lemma py_slice_from_nonneg:
  "0 \<le> a \<Longrightarrow> a \<le> int (length xs) \<Longrightarrow> py_slice_from xs a = drop (nat a) xs"
  by (simp add: py_slice_from_def slice_index_def nat_le_iff min_absorb1)

lemma py_slice_append:
  assumes "0 \<le> a" "a \<le> b" "b \<le> c" "c \<le> int (length xs)"
  shows "py_slice xs a b @ py_slice xs b c = py_slice xs a c"
proof -
  have "take (nat c - nat a) (drop (nat a) xs)
      = take ((nat b - nat a) + (nat c - nat b)) (drop (nat a) xs)"
    using assms by simp
  also have "\<dots> = take (nat b - nat a) (drop (nat a) xs)
                 @ take (nat c - nat b) (drop (nat b - nat a) (drop (nat a) xs))"
    by (rule take_add)
  also have "drop (nat b - nat a) (drop (nat a) xs) = drop (nat b) xs"
    using assms by simp
  finally show ?thesis
    using assms by (simp add: py_slice_nonneg)
qed

lemma slices_tile:
  "tiles lo ps hi \<Longrightarrow> 0 \<le> lo \<Longrightarrow> hi \<le> int (length xs) \<Longrightarrow>
   concat (map (\<lambda>(off, n). py_slice xs off (off + n)) ps) = py_slice xs lo hi"
proof (induction ps arbitrary: lo)
  case Nil
  then show ?case by (simp add: py_slice_nonneg)
next
  case (Cons q ps)
  obtain off n where q: "q = (off, n)" by (cases q)
  from Cons.prems q have t: "tiles (lo + n) ps hi" and o: "off = lo" and n: "0 \<le> n"
    by simp_all
  from tiles_le [OF t] have le: "lo + n \<le> hi" .
  have "concat (map (\<lambda>(off, n). py_slice xs off (off + n)) ps) = py_slice xs (lo + n) hi"
    using t Cons.prems n by (intro Cons.IH) simp_all
  then show ?case
    using q o n le Cons.prems by (simp add: py_slice_append)
qed

lemma tiles_append:
  "tiles lo (ps @ qs) hi \<longleftrightarrow>
     tiles lo ps (lo + sum_list (map snd ps)) \<and> tiles (lo + sum_list (map snd ps)) qs hi"
  by (induction ps arbitrary: lo) (auto simp: add.assoc)

lemma pipe_send_slice:
  "var_name \<noteq> ''op'' \<Longrightarrow> w_status w = Listening \<Longrightarrow>
   pipe_send reg [''op'' \<mapsto> StrV ''set_data'', var_name \<mapsto> v] w
     = w\<lparr>w_store := (w_store w)(var_name \<mapsto> v)\<rparr>"
proof -
  assume a: "var_name \<noteq> ''op''" "w_status w = Listening"
  then have "set_data [''op'' \<mapsto> StrV ''set_data'', var_name \<mapsto> v] (w_store w)
           = (w_store w)(var_name \<mapsto> v)"
    by (intro ext) (simp add: set_data_def)
  with a show ?thesis
    by (simp add: pipe_send_eq handle_set_data)
qed

lemma send_slices_all:
  "var_name \<noteq> ''op'' \<Longrightarrow> i + length ws \<le> length ial \<Longrightarrow>
   \<forall>w \<in> set ws. w_status w = Listening \<Longrightarrow>
   \<forall>j. i \<le> j \<and> j < i + length ws \<longrightarrow> 0 < snd (ial ! j) \<Longrightarrow>
   send_slices reg data_list var_name ial i ws =
     (None, map (\<lambda>(w, (index, len)).
                   w\<lparr>w_store := (w_store w)
                       (var_name \<mapsto> ListV (py_slice data_list index (index + len)))\<rparr>)
                (zip ws (drop i ial)))"
proof (induction ws arbitrary: i)
  case Nil
  then show ?case by simp
next
  case (Cons w ws)
  from Cons.prems(2) have i: "i < length ial" by simp
  obtain index len where il: "ial ! i = (index, len)" by (cases "ial ! i")
  from Cons.prems(4) il have pos: "0 < len" by (metis add_Suc_right le_refl length_Cons
        less_add_Suc1 snd_conv)
  from i have dr: "drop i ial = (index, len) # drop (Suc i) ial"
    using il by (simp add: Cons_nth_drop_Suc [symmetric])
  have "send_slices reg data_list var_name ial (Suc i) ws =
     (None, map (\<lambda>(w, (index, len)).
                   w\<lparr>w_store := (w_store w)
                       (var_name \<mapsto> ListV (py_slice data_list index (index + len)))\<rparr>)
                (zip ws (drop (Suc i) ial)))"
    using Cons.prems by (intro Cons.IH) auto
  note rest = this
  from Cons.prems have "w_status w = Listening" by simp
  with Cons.prems(1)
  have w': "pipe_send reg [''op'' \<mapsto> StrV ''set_data'',
                          var_name \<mapsto> ListV (py_slice data_list index (index + len))] w
          = w\<lparr>w_store := (w_store w)
                (var_name \<mapsto> ListV (py_slice data_list index (index + len)))\<rparr>"
    by (rule pipe_send_slice)
  have "send_slices reg data_list var_name ial i (w # ws) =
     (None, w\<lparr>w_store := (w_store w)
                (var_name \<mapsto> ListV (py_slice data_list index (index + len)))\<rparr>
            # map (\<lambda>(w, (index, len)).
                   w\<lparr>w_store := (w_store w)
                       (var_name \<mapsto> ListV (py_slice data_list index (index + len)))\<rparr>)
                (zip ws (drop (Suc i) ial)))"
    using i il pos by (simp add: w' rest del: fun_upd_apply)
  then show ?case
    unfolding dr by (simp add: fun_upd_def)
qed

lemma breakpoints_increase:
  assumes n: "1 \<le> n" and len: "n \<le> len"
  shows "(len * int j) div n < (len * int (Suc j)) div n"
proof -
  from n have pos: "0 < n" by simp
  have "len * int j + n \<le> len * int (Suc j)"
    using len by (simp add: algebra_simps)
  then have "(len * int j + n) div n \<le> (len * int (Suc j)) div n"
    using pos by (rule zdiv_mono1)
  moreover have "(len * int j + n) div n = (len * int j) div n + 1"
    using pos div_add_self2 [of n "len * int j"] by simp
  ultimately show ?thesis by simp
qed

lemma py_split_workers_positive:
  assumes n: "1 \<le> n" and len: "n - 1 \<le> len" and bound: "len * n < 2 ^ 53"
      and ps: "py_split start len n = Inr ps" and j: "j < nat n - 1"
  shows "0 < snd (ps ! j)"
proof (cases "n \<le> len")
  case True
  let ?xs = "floor_indices start len n"
  let ?f = "\<lambda>i. (?xs ! i, ?xs ! (i + 1) - ?xs ! i)"
  have lx: "length ?xs = nat n" by (simp add: floor_indices_def)
  from n True bound have "split_indices start len n = Inr ?xs"
    by (intro split_indices_exact) simp_all
  with n True have "py_split start len n
      = Inr (map ?f [0..<length ?xs - 1] @ [(last ?xs, start + len - last ?xs)])"
    by (simp add: py_split_def split_standard_def Let_def floor_indices_nonempty)
  with ps have "ps = map ?f [0..<length ?xs - 1] @ [(last ?xs, start + len - last ?xs)]"
    by simp
  with j lx have "ps ! j = ?f j"
    by (simp add: nth_append del: upt_Suc)
  moreover from j have "j < nat n" "Suc j < nat n" by simp_all
  then have "?xs ! j = start + (len * int j) div n"
    and "?xs ! (j + 1) = start + (len * int (Suc j)) div n"
    by (simp_all add: floor_indices_def del: upt_Suc of_nat_Suc)
  ultimately show ?thesis
    using breakpoints_increase [OF n True, of j] by simp
next
  case False
  with len have eq: "len = n - 1" by simp
  with n have l0: "0 \<le> len" by simp
  from False ps have "ps = split_special start len (nat n) start"
    by (simp add: py_split_def)
  also have "\<dots> = map (\<lambda>i. (start + int i, 1)) [0..<min (nat n) (nat (start + len - start))]
     @ replicate (nat n - nat (start + len - start)) (start + len, 0)"
    using l0 by (intro split_special_closed) simp
  finally have "ps = map (\<lambda>i. (start + int i, 1)) [0..<min (nat n) (nat (start + len - start))]
     @ replicate (nat n - nat (start + len - start)) (start + len, 0)" .
  moreover from j eq n have "j < nat (n - 1)" by simp
  ultimately have "ps ! j = (start + int j, 1)"
    using eq n by (simp add: nth_append del: upt_Suc)
  then show ?thesis by simp
qed

lemma split_list_and_send_result:
  assumes cpus: "cpu_count p = int (length (pipes p)) + 1"
      and ready: "\<forall>w \<in> set (pipes p). w_status w = Listening"
      and name: "var_name \<noteq> ''op''"
      and enough: "length (pipes p) \<le> length data_list"
      and bound: "int (length data_list) * cpu_count p < 2 ^ 53"
  shows "\<exists>ial. py_split 0 (int (length data_list)) (cpu_count p) = Inr ial
           \<and> length ial = Suc (length (pipes p))
           \<and> tiles 0 ial (int (length data_list))
           \<and> split_list_and_send reg data_list var_name p =
               (None, p\<lparr>pipes := map (\<lambda>(w, (index, len)).
                            w\<lparr>w_store := (w_store w)
                              (var_name \<mapsto> ListV (py_slice data_list index (index + len)))\<rparr>)
                          (zip (pipes p) ial),
                        process_data := (process_data p)
                          (var_name \<mapsto> ListV (py_slice_from data_list (fst (last ial))))\<rparr>)"
proof -
  let ?L = "int (length data_list)"
  from cpus have n: "1 \<le> cpu_count p" by simp
  have "\<exists>ps. py_split 0 ?L (cpu_count p) = Inr ps \<and> length ps = nat (cpu_count p)
             \<and> tiles 0 ps (0 + ?L)"
    using n bound by (intro py_split_tiling) simp_all
  then obtain ial where ial: "py_split 0 ?L (cpu_count p) = Inr ial"
    "length ial = nat (cpu_count p)" "tiles 0 ial ?L" by auto
  from ial(2) cpus have len: "length ial = Suc (length (pipes p))" by simp
  have pos: "\<forall>j. 0 \<le> j \<and> j < 0 + length (pipes p) \<longrightarrow> 0 < snd (ial ! j)"
  proof (intro allI impI)
    fix j assume "0 \<le> j \<and> j < 0 + length (pipes p)"
    with cpus have "j < nat (cpu_count p) - 1" by simp
    moreover from cpus enough have "cpu_count p - 1 \<le> ?L" by simp
    ultimately show "0 < snd (ial ! j)"
      using n ial(1) bound
      by (intro py_split_workers_positive [of "cpu_count p" ?L 0 ial j])
  qed
  have "send_slices reg data_list var_name ial 0 (pipes p) =
     (None, map (\<lambda>(w, (index, len)).
                   w\<lparr>w_store := (w_store w)
                       (var_name \<mapsto> ListV (py_slice data_list index (index + len)))\<rparr>)
                (zip (pipes p) (drop 0 ial)))"
    using name len ready pos by (intro send_slices_all) simp_all
  moreover from len have "ial \<noteq> []" by auto
  ultimately have "split_list_and_send reg data_list var_name p =
               (None, p\<lparr>pipes := map (\<lambda>(w, (index, len)).
                            w\<lparr>w_store := (w_store w)
                              (var_name \<mapsto> ListV (py_slice data_list index (index + len)))\<rparr>)
                          (zip (pipes p) ial),
                        process_data := (process_data p)
                          (var_name \<mapsto> ListV (py_slice_from data_list (fst (last ial))))\<rparr>)"
    using ial(1) by (simp add: split_list_and_send_def del: fun_upd_apply)
  with ial len show ?thesis by blast
qed

lemmas run_defs = split_list_and_send_def py_split_def split_indices_exact floor_indices_def
  split_standard_def
  concat_var_into_list_def get_var_request_def pipe_send_def handle_request_def
  get_var_def crash_def set_data_def pipe_recv_def list_extend_def
  fresh_pool_def new_worker_def py_slice_def py_slice_from_def slice_index_def

text \<open>
  C4, as stated: for every pool, every sequence and every name, \<^verbatim>\<open>split_list_and_send\<close>
  followed by \<^verbatim>\<open>concat_var_into_list\<close> gives the sequence back. With one worker:
  the empty sequence gives the worker the length 0, nothing is sent to it, and its
  \<^verbatim>\<open>get_var\<close> raises \<^verbatim>\<open>KeyError\<close>, so the main process waits for a reply
  that never comes; if the worker still holds a value from an earlier scatter, that stale
  value comes back instead; and under the name \<^verbatim>\<open>op\<close> the slice overwrites the
  discriminant of the request, which the worker then ignores.
\<close>

theorem split_concat_round_trip_counterexample:
  "fst (split_list_and_send Map.empty [] ''v'' (fresh_pool 1)) = None
   \<and> fst (concat_var_into_list Map.empty ''v''
          (snd (split_list_and_send Map.empty [] ''v'' (fresh_pool 1)))) = Inl NoReply
   \<and> fst (concat_var_into_list Map.empty ''v''
          (snd (split_list_and_send Map.empty [] ''v''
             (snd (split_list_and_send Map.empty [IntV 1, IntV 2, IntV 3] ''v''
                (fresh_pool 1)))))) = Inr [IntV 1]
   \<and> fst (split_list_and_send Map.empty [IntV 1, IntV 2] ''op'' (fresh_pool 1)) = None
   \<and> fst (concat_var_into_list Map.empty ''op''
          (snd (split_list_and_send Map.empty [IntV 1, IntV 2] ''op'' (fresh_pool 1))))
       = Inl NoReply"
  by (simp add: run_defs eval_nat_numeral)

text \<open>
  C4, amended: in a pool started on \<open>K + 1\<close> processors, whose \<open>K\<close> workers listen and
  have no unread reply, for every name other than \<^verbatim>\<open>op\<close> and every sequence of
  length \<open>L\<close> at least \<open>K\<close> with \<open>L * (K + 1) < 2\<^sup>5\<^sup>3\<close> (where the float division of
  the partitioner is exact), \<^verbatim>\<open>split_list_and_send\<close> succeeds and
  \<^verbatim>\<open>concat_var_into_list\<close> on the same name then returns the sequence, the same
  elements in the original order.
\<close>

theorem split_concat_round_trip:
  assumes cpus: "cpu_count p = int (length (pipes p)) + 1"
      and ready: "\<forall>w \<in> set (pipes p). w_status w = Listening \<and> w_replies w = []"
      and name: "var_name \<noteq> ''op''"
      and enough: "length (pipes p) \<le> length data_list"
      and bound: "int (length data_list) * cpu_count p < 2 ^ 53"
  shows "case split_list_and_send reg data_list var_name p of
           (e, p') \<Rightarrow> e = None \<and> fst (concat_var_into_list reg var_name p') = Inr data_list"
proof -
  let ?L = "int (length data_list)"
  let ?slice = "\<lambda>(index, len). py_slice data_list index (index + len)"
  let ?put = "\<lambda>(w, (index, len)). w\<lparr>w_store := (w_store w)
                (var_name \<mapsto> ListV (py_slice data_list index (index + len)))\<rparr>"
  from ready have listening: "\<forall>w \<in> set (pipes p). w_status w = Listening" by simp
  from split_list_and_send_result [OF cpus listening name enough bound, of reg]
  obtain ial where ial: "length ial = Suc (length (pipes p))" "tiles 0 ial ?L"
    and res: "split_list_and_send reg data_list var_name p =
      (None, p\<lparr>pipes := map ?put (zip (pipes p) ial),
               process_data := (process_data p)
                 (var_name \<mapsto> ListV (py_slice_from data_list (fst (last ial))))\<rparr>)"
    by blast
  let ?p' = "p\<lparr>pipes := map ?put (zip (pipes p) ial),
               process_data := (process_data p)
                 (var_name \<mapsto> ListV (py_slice_from data_list (fst (last ial))))\<rparr>"
  from ial(1) have ne: "ial \<noteq> []" by auto
  then have split: "ial = butlast ial @ [last ial]" by simp
  let ?mid = "0 + sum_list (map snd (butlast ial))"
  from ial(2) split have "tiles 0 (butlast ial @ [last ial]) ?L" by simp
  then have t1: "tiles 0 (butlast ial) ?mid" and t2: "tiles ?mid [last ial] ?L"
    unfolding tiles_append by simp_all
  from t2 have off: "fst (last ial) = ?mid" and mid_le: "?mid \<le> ?L"
    by (cases "last ial", simp)+
  from tiles_le [OF t1] have mid0: "0 \<le> ?mid" .
  have ready': "\<forall>w \<in> set (pipes ?p'). w_status w = Listening \<and> w_replies w = []"
    using ready by (auto dest!: set_zip_leftD)
  have stores: "map (\<lambda>w. w_store w var_name) (pipes ?p')
              = map (\<lambda>xs. Some (ListV xs)) (map ?slice (butlast ial))"
    using ial(1) by (auto simp: list_eq_iff_nth_eq nth_butlast split: prod.splits)
  have own: "process_data ?p' var_name
           = Some (ListV (py_slice_from data_list (fst (last ial))))"
    by simp
  have "concat (map ?slice (butlast ial)) = py_slice data_list 0 ?mid"
    using t1 mid_le by (intro slices_tile) simp_all
  also have "\<dots> = take (nat ?mid) data_list"
    using mid0 mid_le by (simp add: py_slice_nonneg)
  finally have "concat (map ?slice (butlast ial)) @ py_slice_from data_list (fst (last ial))
              = data_list"
    using mid0 mid_le off by (simp add: py_slice_from_nonneg)
  with concat_var_into_list_order [OF ready' stores own, of reg]
  have "fst (concat_var_into_list reg var_name ?p') = Inr data_list" by simp
  with res show ?thesis by simp
qed

theorem split_concat_round_trip_witness:
  "case split_list_and_send Map.empty (map IntV [1, 2, 3, 4, 5, 6, 7]) ''v'' (fresh_pool 2) of
     (e, p') \<Rightarrow> e = None
       \<and> fst (concat_var_into_list Map.empty ''v'' p') = Inr (map IntV [1, 2, 3, 4, 5, 6, 7])"
  using split_concat_round_trip [of "fresh_pool 2" "''v''" "map IntV [1, 2, 3, 4, 5, 6, 7]" Map.empty]
  by (simp add: fresh_pool_def new_worker_def eval_nat_numeral)

end
